theory Spec2Isabelle
  imports Complex_Main "HOL-Library.Sublist"
begin

section \<open>Go strings and the library functions the package calls\<close>

text \<open>
  A Go string is a sequence of bytes; \<^typ>\<open>string\<close> is a list of 8-bit characters.
  The functions of package \<^verbatim>\<open>strings\<close> that the source calls are modelled on
  bytes, at the arguments the source passes (one-byte separators).
\<close>

type_synonym bytes = string

text \<open>\<^verbatim>\<open>strings.Contains(s, substr)\<close>: some suffix of \<open>s\<close> starts with \<open>substr\<close>.\<close>

fun Contains :: "string \<Rightarrow> string \<Rightarrow> bool" where
  "Contains [] sub = (sub = [])"
| "Contains (c # cs) sub = (prefix sub (c # cs) \<or> Contains cs sub)"

text \<open>\<^verbatim>\<open>strings.HasPrefix(s, p)\<close>.\<close>

definition HasPrefix :: "string \<Rightarrow> string \<Rightarrow> bool" where
  "HasPrefix s p = prefix p s"

text \<open>\<^verbatim>\<open>strings.TrimPrefix(s, p)\<close>: \<open>s\<close> without the leading \<open>p\<close>, or \<open>s\<close> itself.\<close>

definition TrimPrefix :: "string \<Rightarrow> string \<Rightarrow> string" where
  "TrimPrefix s p = (if HasPrefix s p then drop (length p) s else s)"

text \<open>
  \<^verbatim>\<open>strings.Split(s, sep)\<close> for a separator of one byte (the source passes \<open>","\<close>):
  the pieces between the separators, in order; a string with no separator is returned
  whole, the empty string gives one empty piece.
\<close>

fun Split :: "string \<Rightarrow> char \<Rightarrow> string list" where
  "Split [] sep = [[]]"
| "Split (c # cs) sep =
     (if c = sep then [] # Split cs sep
      else (case Split cs sep of [] \<Rightarrow> [[c]] | p # ps \<Rightarrow> (c # p) # ps))"

text \<open>
  \<^verbatim>\<open>strings.SplitN(s, sep, 2)\<close> for a separator of one byte (the source passes
  \<open>";"\<close>): the text before the first separator and the text after it, or \<open>s\<close> alone
  when it has no separator.
\<close>

definition SplitN2 :: "string \<Rightarrow> char \<Rightarrow> string list" where
  "SplitN2 s sep =
     (if sep \<in> set s then [takeWhile (\<lambda>c. c \<noteq> sep) s, tl (dropWhile (\<lambda>c. c \<noteq> sep) s)]
      else [s])"

text \<open>
  \<^verbatim>\<open>strings.TrimSpace\<close> removes the leading and trailing white space, as Unicode
  defines it, from a UTF-8 string. \<open>spaceRunes\<close> lists the UTF-8 encodings of the
  white-space code points: U+0009 to U+000D, U+0020, U+0085, U+00A0, U+1680, U+2000 to
  U+200A, U+2028, U+2029, U+202F, U+205F and U+3000. A byte sequence that is not one of
  these encodings decodes to a rune that is not white space, and trimming stops there.
\<close>

definition spaceRunes :: "string list" where
  "spaceRunes =
     [[CHR 0x09], [CHR 0x0A], [CHR 0x0B], [CHR 0x0C], [CHR 0x0D], [CHR 0x20],
      [CHR 0xC2, CHR 0x85], [CHR 0xC2, CHR 0xA0],
      [CHR 0xE1, CHR 0x9A, CHR 0x80],
      [CHR 0xE2, CHR 0x80, CHR 0x80], [CHR 0xE2, CHR 0x80, CHR 0x81],
      [CHR 0xE2, CHR 0x80, CHR 0x82], [CHR 0xE2, CHR 0x80, CHR 0x83],
      [CHR 0xE2, CHR 0x80, CHR 0x84], [CHR 0xE2, CHR 0x80, CHR 0x85],
      [CHR 0xE2, CHR 0x80, CHR 0x86], [CHR 0xE2, CHR 0x80, CHR 0x87],
      [CHR 0xE2, CHR 0x80, CHR 0x88], [CHR 0xE2, CHR 0x80, CHR 0x89],
      [CHR 0xE2, CHR 0x80, CHR 0x8A],
      [CHR 0xE2, CHR 0x80, CHR 0xA8], [CHR 0xE2, CHR 0x80, CHR 0xA9],
      [CHR 0xE2, CHR 0x80, CHR 0xAF], [CHR 0xE2, CHR 0x81, CHR 0x9F],
      [CHR 0xE3, CHR 0x80, CHR 0x80]]"

text \<open>The width in bytes of the white-space rune that \<open>s\<close> starts with, 0 if none.\<close>

definition spaceWidth :: "string list \<Rightarrow> string \<Rightarrow> nat" where
  "spaceWidth runes s = (case find (\<lambda>r. prefix r s) runes of None \<Rightarrow> 0 | Some r \<Rightarrow> length r)"

lemma spaceWidth_le: "spaceWidth runes s \<le> length s"
  by (auto simp: spaceWidth_def find_Some_iff prefix_def split: option.splits)

function trimRunes :: "string list \<Rightarrow> string \<Rightarrow> string" where
  "trimRunes runes s =
     (if spaceWidth runes s = 0 then s else trimRunes runes (drop (spaceWidth runes s) s))"
  by pat_completeness auto
termination
proof (relation "measure (\<lambda>(runes, s). length s)")
  show "wf (measure (\<lambda>(runes, s). length s))" by simp
next
  fix runes :: "string list" and s :: string
  assume "spaceWidth runes s \<noteq> 0"
  moreover have "spaceWidth runes s \<le> length s" by (rule spaceWidth_le)
  ultimately show "((runes, drop (spaceWidth runes s) s), (runes, s)) \<in> measure (\<lambda>(runes, s). length s)"
    by simp
qed

declare trimRunes.simps [simp del]

text \<open>Trailing white space is leading white space of the reversed string.\<close>

definition TrimSpace :: "string \<Rightarrow> string" where
  "TrimSpace s = rev (trimRunes (map rev spaceRunes) (rev (trimRunes spaceRunes s)))"

section \<open>The negotiator\<close>

text \<open>
  A \<^verbatim>\<open>float64\<close> as far as the comparison \<^verbatim>\<open>q > 0\<close> needs it: a finite value, an
  infinity or a NaN. \<open>gtZero q\<close> is \<^verbatim>\<open>q > 0\<close>, false for a NaN.
\<close>

datatype float64 = Finite real | PosInf | NegInf | NaN

fun gtZero :: "float64 \<Rightarrow> bool" where
  "gtZero (Finite r) = (0 < r)"
| "gtZero PosInf = True"
| "gtZero NegInf = False"
| "gtZero NaN = False"

text \<open>
  \<^verbatim>\<open>allowsGzip\<close>. \<^verbatim>\<open>strconv.ParseFloat(qv, 64)\<close> belongs to the Go library and is
  a parameter: \<open>ParseFloat qv = Some q\<close> when it returns \<open>q\<close> with a nil error, \<open>None\<close>
  when the error is not nil. The loop over the pieces is \<open>allowsGzip_loop\<close>: \<^verbatim>\<open>continue\<close>
  is the recursive call, every \<^verbatim>\<open>return\<close> ends the loop.
\<close>

fun allowsGzip_loop :: "(string \<Rightarrow> float64 option) \<Rightarrow> string list \<Rightarrow> bool" where
  "allowsGzip_loop ParseFloat [] = False"
| "allowsGzip_loop ParseFloat (ss # rest) =
     (let parts = SplitN2 ss CHR '';''; l = length parts in
      if l = 0 \<or> TrimSpace (parts ! 0) \<noteq> ''gzip'' then allowsGzip_loop ParseFloat rest
      else if l = 1 then True
      else
        let p = TrimSpace (parts ! 1); qv = TrimPrefix p ''q='' in
        if qv \<noteq> p then
          (case ParseFloat qv of Some q \<Rightarrow> gtZero q | None \<Rightarrow> False)
        else False)"

definition allowsGzip :: "(string \<Rightarrow> float64 option) \<Rightarrow> string \<Rightarrow> bool" where
  "allowsGzip ParseFloat hdr =
     (if \<not> Contains hdr ''gzip'' then False
      else allowsGzip_loop ParseFloat (Split hdr CHR '',''))"

text \<open>
  The words of the specification about one comma-separated entry: its token is the part
  before the first semicolon, trimmed; its parameter, when the entry has a semicolon, is
  the part after the first semicolon, trimmed.
\<close>

definition token :: "string \<Rightarrow> string" where
  "token e = TrimSpace (takeWhile (\<lambda>c. c \<noteq> CHR '';'') e)"

definition param :: "string \<Rightarrow> string option" where
  "param e =
     (if CHR '';'' \<in> set e then Some (TrimSpace (tl (dropWhile (\<lambda>c. c \<noteq> CHR '';'') e)))
      else None)"

text \<open>What one entry whose token is \<open>gzip\<close> decides.\<close>

definition verdict :: "(string \<Rightarrow> float64 option) \<Rightarrow> string \<Rightarrow> bool" where
  "verdict ParseFloat e =
     (case param e of
        None \<Rightarrow> True
      | Some p \<Rightarrow>
          (if prefix ''q='' p then
             (case ParseFloat (drop 2 p) of Some q \<Rightarrow> gtZero q | None \<Rightarrow> False)
           else False))"

text \<open>
  A sample of \<^verbatim>\<open>strconv.ParseFloat\<close>, right on the three strings it knows and used
  where a concrete parser is needed: \<open>"1.0"\<close> is 1, \<open>"0.0"\<close> is 0, and \<open>"X"\<close> is a
  syntax error.
\<close>

definition ParseFloat_sample :: "string \<Rightarrow> float64 option" where
  "ParseFloat_sample s =
     (if s = ''1.0'' then Some (Finite 1) else if s = ''0.0'' then Some (Finite 0) else None)"

section \<open>The supported content types\<close>

text \<open>
  \<^verbatim>\<open>supportedContentType\<close>: the \<^verbatim>\<open>switch\<close> on the whole string first, then the
  two prefix tests.
\<close>

definition supportedContentType :: "string \<Rightarrow> bool" where
  "supportedContentType s =
     (if s = '''' then False
      else if s = ''image/svg+xml'' \<or> s = ''font/woff'' \<or> s = ''font/woff2'' then True
      else if HasPrefix s ''text/'' then True
      else if HasPrefix s ''application/'' \<and>
              (Contains s ''json'' \<or> Contains s ''javascript'' \<or> Contains s ''xml'') then True
      else False)"

section \<open>Response headers and constants\<close>

text \<open>
  \<^verbatim>\<open>http.Header\<close> is a map from header names to lists of values. The package uses
  the methods \<^verbatim>\<open>Get\<close>, \<^verbatim>\<open>Set\<close>, \<^verbatim>\<open>Add\<close> and \<^verbatim>\<open>Del\<close> with names that are
  already in canonical form, so the canonical key is the key itself. \<^verbatim>\<open>Get\<close> returns
  the first value of the key, and the empty string when the key is absent or has no value.
\<close>

type_synonym header = "string \<Rightarrow> string list option"

definition Header_Get :: "header \<Rightarrow> string \<Rightarrow> string" where
  "Header_Get hs k = (case hs k of None \<Rightarrow> [] | Some [] \<Rightarrow> [] | Some (v # vs) \<Rightarrow> v)"

definition Header_Set :: "header \<Rightarrow> string \<Rightarrow> string \<Rightarrow> header" where
  "Header_Set hs k v = hs(k \<mapsto> [v])"

definition Header_Add :: "header \<Rightarrow> string \<Rightarrow> string \<Rightarrow> header" where
  "Header_Add hs k v = hs(k \<mapsto> (case hs k of None \<Rightarrow> [] | Some vs \<Rightarrow> vs) @ [v])"

definition Header_Del :: "header \<Rightarrow> string \<Rightarrow> header" where
  "Header_Del hs k = hs(k := None)"

definition compressThreshold :: int where "compressThreshold = 1000"

definition hdrAcceptEncoding :: string where "hdrAcceptEncoding = ''Accept-Encoding''"

definition hdrContentEncoding :: string where "hdrContentEncoding = ''Content-Encoding''"

definition hdrContentType :: string where "hdrContentType = ''Content-Type''"

definition hdrContentLength :: string where "hdrContentLength = ''Content-Length''"

definition hdrContentRange :: string where "hdrContentRange = ''Content-Range''"

text \<open>The status codes of \<^verbatim>\<open>net/http\<close> that the source names.\<close>

definition StatusOK :: int where "StatusOK = 200"

definition StatusNoContent :: int where "StatusNoContent = 204"

definition StatusPartialContent :: int where "StatusPartialContent = 206"

definition StatusNotModified :: int where "StatusNotModified = 304"

text \<open>
  \<^verbatim>\<open>strconv.Atoi\<close>: an optional sign, then one or more decimal digits and nothing
  else; the value must fit an \<^verbatim>\<open>int\<close> (64 bits). \<open>None\<close> is a non-nil error.
\<close>

definition isDigit :: "char \<Rightarrow> bool" where
  "isDigit c = (48 \<le> (of_char c :: nat) \<and> (of_char c :: nat) \<le> 57)"

definition decimal :: "string \<Rightarrow> int" where
  "decimal ds = foldl (\<lambda>n c. n * 10 + (int (of_char c) - 48)) 0 ds"

definition Atoi :: "string \<Rightarrow> int option" where
  "Atoi s =
     (let neg = (case s of [] \<Rightarrow> False | c # cs \<Rightarrow> c = CHR ''-'');
          ds = (case s of [] \<Rightarrow> [] | c # cs \<Rightarrow> if c = CHR ''+'' \<or> c = CHR ''-'' then cs else s)
      in if ds = [] \<or> \<not> list_all isDigit ds then None
         else
           let n = (if neg then - decimal ds else decimal ds) in
           if n < - (2 ^ 63) \<or> 2 ^ 63 - 1 < n then None else Some n)"

section \<open>The real response writer, the gzip writers and their pool\<close>

text \<open>
  The real \<^verbatim>\<open>http.ResponseWriter\<close> belongs to the server. It is modelled by what it
  is (\<open>addr\<close>, the reference to it), its header map, whether it implements
  \<^verbatim>\<open>http.Flusher\<close>, and the effects it has received from this package, in order:
  the header mutations the package makes, the calls of \<^verbatim>\<open>WriteHeader\<close>, \<^verbatim>\<open>Write\<close>
  and \<^verbatim>\<open>Flush\<close>, and the calls on a gzip writer whose sink the response writer is
  (\<open>GzWrite n b\<close>: the bytes \<open>b\<close> enter gzip writer \<open>n\<close>, which compresses them into
  the response writer). The codec itself is not modelled. The results of
  \<^verbatim>\<open>Write\<close> (a count and an error) are passed back to the handler as they are and
  change no state of the package.
\<close>

datatype event =
    HeaderAdd string string
  | HeaderSet string string
  | HeaderDel string
  | WriteHeaderCall int
  | WriteCall bytes
  | FlushCall
  | GzReset nat
  | GzWrite nat bytes
  | GzFlush nat
  | GzClose nat

record responseWriter =
  addr :: nat
  header :: header
  flusher :: bool
  calls :: "event list"

text \<open>
  \<^verbatim>\<open>gzip.NewWriterLevel\<close> of the Go library returns an error for a level below
  \<^verbatim>\<open>gzip.HuffmanOnly\<close> (-2) or above \<^verbatim>\<open>gzip.BestCompression\<close> (9). Both places
  that call it panic with that error.
\<close>

datatype panic = InvalidLevel int

definition HuffmanOnly :: int where "HuffmanOnly = - 2"

definition BestSpeed :: int where "BestSpeed = 1"

definition BestCompression :: int where "BestCompression = 9"

definition NewWriterLevel :: "int \<Rightarrow> panic + unit" where
  "NewWriterLevel lv =
     (if lv < HuffmanOnly \<or> lv > BestCompression then Inl (InvalidLevel lv) else Inr ())"

text \<open>
  \<^verbatim>\<open>newWriterPool\<close> and the methods of \<^verbatim>\<open>pool\<close>. A \<^verbatim>\<open>sync.Pool\<close> hands out an
  idle item when it has one and calls \<^verbatim>\<open>New\<close> otherwise; gzip writers are numbered,
  \<open>idle\<close> are the ones put back, \<open>fresh\<close> is the number of the next new one.
  \<^verbatim>\<open>New\<close> panics when \<^verbatim>\<open>gzip.NewWriterLevel\<close> refuses the level.
\<close>

record writerPool =
  level :: int
  idle :: "nat list"
  fresh :: nat

definition newWriterPool :: "int \<Rightarrow> writerPool" where
  "newWriterPool lv = \<lparr>level = lv, idle = [], fresh = 0\<rparr>"

definition pool_Get :: "writerPool \<Rightarrow> panic + (nat \<times> writerPool)" where
  "pool_Get p =
     (case idle p of
        s # ss \<Rightarrow> Inr (s, p\<lparr>idle := ss\<rparr>)
      | [] \<Rightarrow>
          (case NewWriterLevel (level p) of
             Inl e \<Rightarrow> Inl e
           | Inr u \<Rightarrow> Inr (fresh p, p\<lparr>fresh := Suc (fresh p)\<rparr>)))"

definition pool_Put :: "writerPool \<Rightarrow> nat \<Rightarrow> writerPool" where
  "pool_Put p s = p\<lparr>idle := s # idle p\<rparr>"

section \<open>The compressing response writer\<close>

text \<open>
  \<^verbatim>\<open>gRW\<close>, with the fields of the source; \<open>z\<close> is \<open>None\<close> for a nil pointer. The
  methods take the state and return the new one, or the panic that leaves them.
\<close>

record gRW =
  w :: responseWriter
  z :: "nat option"
  pool :: writerPool
  skip :: bool
  wroteHeader :: bool

text \<open>\<open>tell g es\<close>: the real writer of \<open>g\<close> receives the effects \<open>es\<close>.\<close>

definition tell :: "gRW \<Rightarrow> event list \<Rightarrow> gRW" where
  "tell g es = g\<lparr>w := (w g)\<lparr>calls := calls (w g) @ es\<rparr>\<rparr>"

definition setHeader :: "gRW \<Rightarrow> header \<Rightarrow> gRW" where
  "setHeader g hs = g\<lparr>w := (w g)\<lparr>header := hs\<rparr>\<rparr>"

definition init :: "gRW \<Rightarrow> panic + gRW" where
  "init g =
     (if skip g \<or> z g \<noteq> None then Inr g
      else if Header_Get (header (w g)) hdrContentRange \<noteq> [] then Inr (g\<lparr>skip := True\<rparr>)
      else if Header_Get (header (w g)) hdrContentEncoding \<noteq> [] then Inr (g\<lparr>skip := True\<rparr>)
      else if (let cl = Header_Get (header (w g)) hdrContentLength in
               cl \<noteq> [] \<and> (case Atoi cl of Some n \<Rightarrow> n < compressThreshold | None \<Rightarrow> False))
        then Inr (g\<lparr>skip := True\<rparr>)
      else if (let ct = Header_Get (header (w g)) hdrContentType in
               ct \<noteq> [] \<and> \<not> supportedContentType ct)
        then Inr (g\<lparr>skip := True\<rparr>)
      else
        (case pool_Get (pool g) of
           Inl e \<Rightarrow> Inl e
         | Inr (s, p) \<Rightarrow>
             Inr (tell
               (setHeader (g\<lparr>z := Some s, pool := p\<rparr>)
                  (Header_Del (Header_Set (header (w g)) hdrContentEncoding ''gzip'')
                     hdrContentLength))
               [GzReset s, HeaderSet hdrContentEncoding ''gzip'', HeaderDel hdrContentLength])))"

definition WriteHeader :: "gRW \<Rightarrow> int \<Rightarrow> panic + gRW" where
  "WriteHeader g code =
     (let g1 = g\<lparr>wroteHeader := True\<rparr> in
      case (if z g1 = None \<and> code \<noteq> StatusNoContent \<and> code \<noteq> StatusNotModified \<and>
               code \<noteq> StatusPartialContent
            then init g1 else Inr g1) of
        Inl e \<Rightarrow> Inl e
      | Inr g2 \<Rightarrow> Inr (tell g2 [WriteHeaderCall code]))"

text \<open>
  \<^verbatim>\<open>http.DetectContentType\<close> belongs to the Go library and is a parameter of
  \<^verbatim>\<open>Write\<close>.
\<close>

definition Write :: "(bytes \<Rightarrow> string) \<Rightarrow> gRW \<Rightarrow> bytes \<Rightarrow> panic + gRW" where
  "Write DetectContentType g b =
     (case (if \<not> wroteHeader g then
              WriteHeader
                (if Header_Get (header (w g)) hdrContentType = []
                 then tell
                        (setHeader g
                           (Header_Set (header (w g)) hdrContentType (DetectContentType b)))
                        [HeaderSet hdrContentType (DetectContentType b)]
                 else g)
                StatusOK
            else Inr g) of
        Inl e \<Rightarrow> Inl e
      | Inr g1 \<Rightarrow>
          (case z g1 of
             None \<Rightarrow> Inr (tell g1 [WriteCall b])
           | Some s \<Rightarrow>
               if skip g1 then Inr (tell g1 [WriteCall b]) else Inr (tell g1 [GzWrite s b])))"

definition Flush :: "gRW \<Rightarrow> gRW" where
  "Flush g =
     tell g ((case z g of None \<Rightarrow> [] | Some s \<Rightarrow> [GzFlush s]) @
             (if flusher (w g) then [FlushCall] else []))"

definition Close :: "gRW \<Rightarrow> gRW" where
  "Close g =
     (case z g of
        None \<Rightarrow> g
      | Some s \<Rightarrow>
          (tell g ([GzClose s] @ (if flusher (w g) then [FlushCall] else [])))
            \<lparr>pool := pool_Put (pool g) s, z := None\<rparr>)"

text \<open>
  The four skip rules of \<open>init\<close> as one predicate on the header map, and the state
  that \<open>init\<close> leaves when it takes gzip writer \<open>s\<close> and leaves pool \<open>p\<close>; both
  are used to state facts about \<open>init\<close>.
\<close>

definition skipRules :: "header \<Rightarrow> bool" where
  "skipRules hs \<longleftrightarrow>
     Header_Get hs hdrContentRange \<noteq> [] \<or>
     Header_Get hs hdrContentEncoding \<noteq> [] \<or>
     (case Atoi (Header_Get hs hdrContentLength) of Some n \<Rightarrow> n < compressThreshold
      | None \<Rightarrow> False) \<or>
     (Header_Get hs hdrContentType \<noteq> [] \<and> \<not> supportedContentType (Header_Get hs hdrContentType))"

definition compressWith :: "gRW \<Rightarrow> nat \<Rightarrow> writerPool \<Rightarrow> gRW" where
  "compressWith g s p =
     tell
       (setHeader (g\<lparr>z := Some s, pool := p\<rparr>)
          (Header_Del (Header_Set (header (w g)) hdrContentEncoding ''gzip'') hdrContentLength))
       [GzReset s, HeaderSet hdrContentEncoding ''gzip'', HeaderDel hdrContentLength]"

text \<open>
  Modelled from the spec: the method \<^verbatim>\<open>Unwrap\<close> of \<^verbatim>\<open>gRW\<close>. The test
  \<^verbatim>\<open>Test_gRWUnwrap\<close> calls it, and the source file \<^verbatim>\<open>httpgzip.go\<close> defines no
  such method. The specification says that the hook exposes the wrapped real writer.
\<close>

definition Unwrap :: "gRW \<Rightarrow> responseWriter" where
  "Unwrap g = w g"

section \<open>Handlers and the dispatcher\<close>

text \<open>
  What a wrapped handler does with the response writer it is given: it changes the header
  map (in any way: \<open>DoHeader f\<close> replaces the map \<open>hs\<close> by \<open>f hs\<close>), commits a status
  code, writes body bytes or flushes. One run of a handler is the list of these
  operations, in order.
\<close>

datatype hop = DoHeader "header \<Rightarrow> header" | DoWriteHeader int | DoWrite bytes | DoFlush

fun step :: "(bytes \<Rightarrow> string) \<Rightarrow> gRW \<Rightarrow> hop \<Rightarrow> panic + gRW" where
  "step dct g (DoHeader f) = Inr (setHeader g (f (header (w g))))"
| "step dct g (DoWriteHeader code) = WriteHeader g code"
| "step dct g (DoWrite b) = Write dct g b"
| "step dct g DoFlush = Inr (Flush g)"

fun run :: "(bytes \<Rightarrow> string) \<Rightarrow> gRW \<Rightarrow> hop list \<Rightarrow> panic + gRW" where
  "run dct g [] = Inr g"
| "run dct g (x # xs) = (case step dct g x of Inl e \<Rightarrow> Inl e | Inr g' \<Rightarrow> run dct g' xs)"

text \<open>The same operations on the real writer, when the handler is given it directly.\<close>

fun stepRaw :: "responseWriter \<Rightarrow> hop \<Rightarrow> responseWriter" where
  "stepRaw rw (DoHeader f) = rw\<lparr>header := f (header rw)\<rparr>"
| "stepRaw rw (DoWriteHeader code) = rw\<lparr>calls := calls rw @ [WriteHeaderCall code]\<rparr>"
| "stepRaw rw (DoWrite b) = rw\<lparr>calls := calls rw @ [WriteCall b]\<rparr>"
| "stepRaw rw DoFlush = (if flusher rw then rw\<lparr>calls := calls rw @ [FlushCall]\<rparr> else rw)"

definition runRaw :: "responseWriter \<Rightarrow> hop list \<Rightarrow> responseWriter" where
  "runRaw rw ops = foldl stepRaw rw ops"

text \<open>The composite literal \<^verbatim>\<open>&gRW{w: w, pool: h.writerPool}\<close> of \<^verbatim>\<open>ServeHTTP\<close>.\<close>

definition gzipWrap :: "responseWriter \<Rightarrow> writerPool \<Rightarrow> gRW" where
  "gzipWrap rw p = \<lparr>w = rw, z = None, pool = p, skip = False, wroteHeader = False\<rparr>"

record request =
  reqHeader :: header

definition acceptsGzip :: "(string \<Rightarrow> float64 option) \<Rightarrow> request \<Rightarrow> bool" where
  "acceptsGzip ParseFloat r = allowsGzip ParseFloat (Header_Get (reqHeader r) hdrAcceptEncoding)"

text \<open>
  \<^verbatim>\<open>gzipHandler\<close>, \<^verbatim>\<open>Option\<close>, \<^verbatim>\<open>WithLevel\<close> and \<^verbatim>\<open>New\<close>. The wrapped handler is
  the run it makes for a request.
\<close>

record gzipHandler =
  h :: "request \<Rightarrow> hop list"
  writerPool :: writerPool

type_synonym Option = "gzipHandler \<Rightarrow> gzipHandler"

definition WithLevel :: "int \<Rightarrow> panic + Option" where
  "WithLevel lv =
     (case NewWriterLevel lv of
        Inl e \<Rightarrow> Inl e
      | Inr u \<Rightarrow> Inr (\<lambda>g. g\<lparr>writerPool := newWriterPool lv\<rparr>))"

definition New :: "(request \<Rightarrow> hop list) \<Rightarrow> Option list \<Rightarrow> gzipHandler" where
  "New hh options =
     foldl (\<lambda>g fn. fn g) \<lparr>h = hh, writerPool = newWriterPool BestSpeed\<rparr> options"

text \<open>
  \<^verbatim>\<open>ServeHTTP\<close> returns the real writer and the pool as the request leaves them. The
  deferred \<^verbatim>\<open>Close\<close> runs when the handler returns; a panic of the handler's run
  passes through (\<open>z\<close> is then nil and the deferred \<^verbatim>\<open>Close\<close> does nothing).
\<close>

definition ServeHTTP ::
  "(string \<Rightarrow> float64 option) \<Rightarrow> (bytes \<Rightarrow> string) \<Rightarrow> gzipHandler \<Rightarrow> responseWriter \<Rightarrow>
     request \<Rightarrow> panic + (responseWriter \<times> writerPool)" where
  "ServeHTTP ParseFloat DetectContentType hnd rw r =
     (let rw1 = rw\<lparr>header := Header_Add (header rw) ''Vary'' hdrAcceptEncoding,
                      calls := calls rw @ [HeaderAdd ''Vary'' hdrAcceptEncoding]\<rparr> in
      if \<not> acceptsGzip ParseFloat r then Inr (runRaw rw1 (h hnd r), writerPool hnd)
      else
        (case run DetectContentType (gzipWrap rw1 (writerPool hnd)) (h hnd r) of
           Inl e \<Rightarrow> Inl e
         | Inr g \<Rightarrow> Inr (w (Close g), pool (Close g))))"

section \<open>The effects of one request, in order\<close>

text \<open>
  Predicates on the list of effects the real writer has received. A body event forwards
  body bytes, raw (\<open>WriteCall\<close>) or into a gzip writer (\<open>GzWrite\<close>). An event touches
  the compression headers when it changes Content-Encoding or Content-Length.
  \<open>firstCode\<close> is the first status code committed on the real writer, and
  \<open>deferredCode\<close> holds of the three codes that \<^verbatim>\<open>WriteHeader\<close> excepts.
\<close>

fun isBody :: "event \<Rightarrow> bool" where
  "isBody (WriteCall b) = True"
| "isBody (GzWrite s b) = True"
| "isBody e = False"

fun isGzWrite :: "event \<Rightarrow> bool" where
  "isGzWrite (GzWrite s b) = True"
| "isGzWrite e = False"

fun touches :: "event \<Rightarrow> bool" where
  "touches (HeaderSet k v) = (k = hdrContentEncoding \<or> k = hdrContentLength)"
| "touches (HeaderAdd k v) = (k = hdrContentEncoding \<or> k = hdrContentLength)"
| "touches (HeaderDel k) = (k = hdrContentEncoding \<or> k = hdrContentLength)"
| "touches e = False"

definition touched :: "event list \<Rightarrow> bool" where
  "touched tr \<longleftrightarrow> filter touches tr \<noteq> []"

fun firstCode :: "event list \<Rightarrow> int option" where
  "firstCode [] = None"
| "firstCode (WriteHeaderCall c # es) = Some c"
| "firstCode (e # es) = firstCode es"

definition deferredCode :: "int \<Rightarrow> bool" where
  "deferredCode c \<longleftrightarrow> c = 204 \<or> c = 304 \<or> c = 206"

text \<open>
  \<open>bodyBeforeMutation tr\<close>: the compression headers are touched in \<open>tr\<close>, and some
  body bytes are forwarded before the first such touch. \<open>gzBeforeMutation tr\<close>: body
  bytes enter a gzip writer before the compression headers are touched.
\<close>

definition bodyBeforeMutation :: "event list \<Rightarrow> bool" where
  "bodyBeforeMutation tr \<longleftrightarrow>
     list_ex touches tr \<and> list_ex isBody (takeWhile (\<lambda>e. \<not> touches e) tr)"

definition gzBeforeMutation :: "event list \<Rightarrow> bool" where
  "gzBeforeMutation tr \<longleftrightarrow> list_ex isGzWrite (takeWhile (\<lambda>e. \<not> touches e) tr)"

text \<open>
  \<open>since rw g\<close>: the effects the real writer has received since it was wrapped, when
  \<open>rw\<close> is the real writer as it was wrapped and \<open>g\<close> the state now.
\<close>

definition since :: "responseWriter \<Rightarrow> gRW \<Rightarrow> event list" where
  "since rw g = drop (length (calls rw)) (calls (w g))"

text \<open>The two header mutations that signal compression.\<close>

definition mutations :: "event list" where
  "mutations = [HeaderSet hdrContentEncoding ''gzip'', HeaderDel hdrContentLength]"

text \<open>
  The invariant of the flags \<open>skip\<close>, \<open>z\<close>, \<open>wroteHeader\<close> and the effects \<open>tr\<close> since
  the wrapping: not both decisions; the compression headers are touched by the two
  mutations exactly when a gzip writer is held, and by nothing else; no body bytes enter a
  gzip writer before them; before the first commit nothing is decided and no body byte is
  forwarded; and when the first code committed is none of the excepted three, a decision
  is made and no body byte precedes the mutations.
\<close>

definition Inv :: "bool \<Rightarrow> nat option \<Rightarrow> bool \<Rightarrow> event list \<Rightarrow> bool" where
  "Inv sk zz wh tr \<longleftrightarrow>
     \<not> (sk \<and> zz \<noteq> None) \<and>
     filter touches tr = (if zz = None then [] else mutations) \<and>
     \<not> gzBeforeMutation tr \<and>
     (\<not> wh \<longrightarrow> \<not> sk \<and> zz = None \<and> \<not> list_ex isBody tr \<and> firstCode tr = None) \<and>
     (wh \<longrightarrow> firstCode tr \<noteq> None) \<and>
     (\<forall>c. firstCode tr = Some c \<and> \<not> deferredCode c \<longrightarrow>
        (sk \<or> zz \<noteq> None) \<and> \<not> bodyBeforeMutation tr)"

definition GInv :: "event list \<Rightarrow> gRW \<Rightarrow> event list \<Rightarrow> bool" where
  "GInv base g tr \<longleftrightarrow> calls (w g) = base @ tr \<and> Inv (skip g) (z g) (wroteHeader g) tr"

text \<open>An event that touches no compression header, forwards no body and commits no code.\<close>

definition neutral :: "event \<Rightarrow> bool" where
  "neutral e \<longleftrightarrow> \<not> touches e \<and> \<not> isBody e \<and> firstCode [e] = None"

text \<open>
  The state of \<^verbatim>\<open>Write\<close> after its content-type sniffing, before its call of
  \<^verbatim>\<open>WriteHeader\<close>.
\<close>

definition sniffed :: "(bytes \<Rightarrow> string) \<Rightarrow> gRW \<Rightarrow> bytes \<Rightarrow> gRW" where
  "sniffed dct g b =
     (if Header_Get (header (w g)) hdrContentType = []
      then tell (setHeader g (Header_Set (header (w g)) hdrContentType (dct b)))
             [HeaderSet hdrContentType (dct b)]
      else g)"

text \<open>A handler operation that leaves the values of the Vary header as they are.\<close>

fun keepsVary :: "hop \<Rightarrow> bool" where
  "keepsVary (DoHeader f) = (\<forall>hs. f hs ''Vary'' = hs ''Vary'')"
| "keepsVary x = True"

text \<open>
  A pool and the gzip writer held are in order when no gzip writer is twice among the idle
  ones, every idle one has been made by the pool, and the one held is not idle.
\<close>

definition poolOK :: "writerPool \<Rightarrow> nat option \<Rightarrow> bool" where
  "poolOK p zz \<longleftrightarrow>
     distinct (idle p) \<and> (\<forall>s\<in>set (idle p). s < fresh p) \<and>
     (case zz of None \<Rightarrow> True | Some s \<Rightarrow> s \<notin> set (idle p) \<and> s < fresh p)"

section \<open>Sample inputs\<close>

text \<open>
  A real writer that has received nothing, a content sniffer that answers as
  \<^verbatim>\<open>http.DetectContentType\<close> does on plain text, and a request that accepts gzip;
  the theorems are evaluated on them.
\<close>

definition rw_sample :: responseWriter where
  "rw_sample = \<lparr>addr = 1, header = Map.empty, flusher = True, calls = []\<rparr>"

definition DetectContentType_sample :: "bytes \<Rightarrow> string" where
  "DetectContentType_sample b = ''text/plain; charset=utf-8''"

definition request_sample :: request where
  "request_sample = \<lparr>reqHeader = [hdrAcceptEncoding \<mapsto> [''gzip'']]\<rparr>"

section \<open>Facts about the string functions\<close>

lemma Contains_sublist: "Contains s sub \<longleftrightarrow> sublist sub s"
  by (induction s) (auto simp: sublist_Cons_right)

lemma Contains_iff: "Contains s sub \<longleftrightarrow> (\<exists>a b. s = a @ sub @ b)"
  by (simp add: Contains_sublist sublist_def)

lemma HasPrefix_iff: "HasPrefix s p \<longleftrightarrow> (\<exists>t. s = p @ t)"
  by (simp add: HasPrefix_def prefix_def)

section \<open>Facts about the negotiator\<close>

lemma Split_not_Nil: "Split s sep \<noteq> []"
  by (induction s) (auto split: list.splits)

lemma Split_hd_prefix: "Split s sep = p # ps \<Longrightarrow> prefix p s"
  by (induction s arbitrary: p ps) (auto split: if_splits list.splits)

lemma Split_sublist: "e \<in> set (Split s sep) \<Longrightarrow> sublist e s"
proof (induction s arbitrary: e)
  case Nil
  then show ?case by simp
next
  case (Cons c cs)
  show ?case
  proof (cases "c = sep")
    case True
    with Cons.prems have "e = [] \<or> e \<in> set (Split cs sep)" by auto
    then show ?thesis
      using Cons.IH by (auto simp: sublist_Cons_right)
  next
    case False
    obtain p ps where ps: "Split cs sep = p # ps"
      using Split_not_Nil [of cs sep] by (cases "Split cs sep") auto
    with False Cons.prems have "e = c # p \<or> e \<in> set ps" by auto
    then show ?thesis
    proof
      assume "e = c # p"
      moreover have "prefix p cs" using ps by (rule Split_hd_prefix)
      ultimately show ?thesis by (simp add: sublist_Cons_right)
    next
      assume "e \<in> set ps"
      then have "e \<in> set (Split cs sep)" using ps by simp
      then show ?thesis using Cons.IH by (simp add: sublist_Cons_right)
    qed
  qed
qed

lemma trimRunes_suffix: "suffix (trimRunes runes s) s"
proof (induction runes s rule: trimRunes.induct)
  case (1 runes s)
  show ?case
  proof (cases "spaceWidth runes s = 0")
    case True
    then show ?thesis by (simp add: trimRunes.simps)
  next
    case False
    then have "suffix (trimRunes runes (drop (spaceWidth runes s) s)) (drop (spaceWidth runes s) s)"
      by (rule "1.IH")
    then have "suffix (trimRunes runes (drop (spaceWidth runes s) s)) s"
      using suffix_drop suffix_order.trans by blast
    with False show ?thesis by (subst trimRunes.simps) simp
  qed
qed

lemma TrimSpace_sublist: "sublist (TrimSpace s) s"
proof -
  let ?t = "trimRunes spaceRunes s"
  have "suffix (trimRunes (map rev spaceRunes) (rev ?t)) (rev ?t)"
    by (rule trimRunes_suffix)
  then have "prefix (TrimSpace s) ?t"
    by (simp add: TrimSpace_def suffix_to_prefix)
  moreover have "suffix ?t s" by (rule trimRunes_suffix)
  ultimately show ?thesis
    unfolding sublist_altdef' by blast
qed

lemma token_sublist: "sublist (token e) e"
proof -
  have "sublist (token e) (takeWhile (\<lambda>c. c \<noteq> CHR '';'') e)"
    unfolding token_def by (rule TrimSpace_sublist)
  moreover have "prefix (takeWhile (\<lambda>c. c \<noteq> CHR '';'') e) e"
    by (metis prefixI takeWhile_dropWhile_id)
  ultimately show ?thesis
    by (auto simp: sublist_def prefix_def) (metis append.assoc)
qed

lemma gzip_token_Contains:
  assumes "e \<in> set (Split hdr sep)" and "token e = ''gzip''"
  shows "Contains hdr ''gzip''"
proof -
  have "sublist ''gzip'' e" using token_sublist [of e] assms(2) by simp
  moreover have "sublist e hdr" using assms(1) by (rule Split_sublist)
  ultimately show ?thesis
    unfolding Contains_sublist by (auto simp: sublist_def) (metis append.assoc)
qed

lemma SplitN2_parts:
  "SplitN2 e CHR '';'' =
     (if CHR '';'' \<in> set e
      then [takeWhile (\<lambda>c. c \<noteq> CHR '';'') e, tl (dropWhile (\<lambda>c. c \<noteq> CHR '';'') e)]
      else [e])"
  by (simp add: SplitN2_def)

lemma takeWhile_no_sep: "sep \<notin> set e \<Longrightarrow> takeWhile (\<lambda>c. c \<noteq> sep) e = e"
  by (induction e) auto

lemma TrimPrefix_q: "TrimPrefix p ''q='' \<noteq> p \<longleftrightarrow> prefix ''q='' p"
proof
  assume "TrimPrefix p ''q='' \<noteq> p"
  then show "prefix ''q='' p" by (auto simp: TrimPrefix_def HasPrefix_def split: if_splits)
next
  assume "prefix ''q='' p"
  then obtain t where "p = ''q='' @ t" by (auto simp: prefix_def)
  then show "TrimPrefix p ''q='' \<noteq> p" by (simp add: TrimPrefix_def HasPrefix_def)
qed

lemma TrimPrefix_q_drop: "prefix ''q='' p \<Longrightarrow> TrimPrefix p ''q='' = drop 2 p"
  by (simp add: TrimPrefix_def HasPrefix_def numeral_2_eq_2)

lemma loop_step_other:
  assumes "token e \<noteq> ''gzip''"
  shows "allowsGzip_loop pf (e # rest) = allowsGzip_loop pf rest"
proof (cases "CHR '';'' \<in> set e")
  case True
  with assms show ?thesis by (simp add: SplitN2_parts token_def Let_def)
next
  case False
  with assms have "TrimSpace e \<noteq> ''gzip''" by (simp add: token_def takeWhile_no_sep)
  with False show ?thesis by (simp add: SplitN2_parts Let_def)
qed

lemma loop_step_gzip:
  assumes "token e = ''gzip''"
  shows "allowsGzip_loop pf (e # rest) = verdict pf e"
proof (cases "CHR '';'' \<in> set e")
  case False
  with assms have "TrimSpace e = ''gzip''" by (simp add: token_def takeWhile_no_sep)
  with False show ?thesis by (simp add: SplitN2_parts Let_def verdict_def param_def)
next
  case True
  let ?p = "TrimSpace (tl (dropWhile (\<lambda>c. c \<noteq> CHR '';'') e))"
  have par: "param e = Some ?p" using True by (simp add: param_def)
  have tok: "TrimSpace (takeWhile (\<lambda>c. c \<noteq> CHR '';'') e) = ''gzip''"
    using assms by (simp add: token_def)
  have step: "allowsGzip_loop pf (e # rest) =
      (if TrimPrefix ?p ''q='' \<noteq> ?p
       then (case pf (TrimPrefix ?p ''q='') of Some q \<Rightarrow> gtZero q | None \<Rightarrow> False)
       else False)"
    using True tok by (simp add: SplitN2_parts Let_def)
  show ?thesis
  proof (cases "prefix ''q='' ?p")
    case True
    then show ?thesis
      unfolding step verdict_def par using TrimPrefix_q [of ?p] TrimPrefix_q_drop [of ?p]
      by simp
  next
    case False
    then show ?thesis
      unfolding step verdict_def par using TrimPrefix_q [of ?p] by simp
  qed
qed

lemma loop_first_gzip:
  "\<forall>x\<in>set pre. token x \<noteq> ''gzip'' \<Longrightarrow> token e = ''gzip'' \<Longrightarrow>
     allowsGzip_loop pf (pre @ e # post) = verdict pf e"
proof (induction pre)
  case Nil
  then show ?case using loop_step_gzip by simp
next
  case (Cons x pre)
  then show ?case using loop_step_other [of x] by simp
qed

lemma loop_no_gzip:
  "\<forall>x\<in>set es. token x \<noteq> ''gzip'' \<Longrightarrow> \<not> allowsGzip_loop pf es"
proof (induction es)
  case Nil
  then show ?case by simp
next
  case (Cons x es)
  then show ?case using loop_step_other [of x] by simp
qed

lemma allowsGzip_first:
  assumes "Split hdr CHR '','' = pre @ e # post"
    and "\<forall>x\<in>set pre. token x \<noteq> ''gzip''" and "token e = ''gzip''"
  shows "allowsGzip pf hdr = verdict pf e"
proof -
  have "e \<in> set (Split hdr CHR '','')" using assms(1) by simp
  then have "Contains hdr ''gzip''" using assms(3) by (rule gzip_token_Contains)
  then show ?thesis
    using loop_first_gzip [OF assms(2,3)] assms(1) by (simp add: allowsGzip_def)
qed

lemma allowsGzip_none:
  assumes "\<forall>x\<in>set (Split hdr CHR '',''). token x \<noteq> ''gzip''"
  shows "\<not> allowsGzip pf hdr"
  using loop_no_gzip [OF assms] by (simp add: allowsGzip_def)

lemmas negotiator_eval =
  allowsGzip_def SplitN2_def TrimSpace_def trimRunes.simps spaceWidth_def spaceRunes_def
  TrimPrefix_def HasPrefix_def

lemma allowsGzip_examples_plain:
  "allowsGzip pf ''compress, gzip''" "\<not> allowsGzip pf []" "\<not> allowsGzip pf ''*''"
  "\<not> allowsGzip pf ''gzip;BAD''"
  by (simp_all add: negotiator_eval)

lemma allowsGzip_examples_one:
  assumes "pf ''1.0'' = Some (Finite 1)"
  shows "allowsGzip pf ''compress;q=0.5, gzip;q=1.0''"
    and "allowsGzip pf ''gzip;q=1.0, identity;q=0.5, *;q=0''"
  using assms by (simp_all add: negotiator_eval)

lemma allowsGzip_examples_zero:
  assumes "pf ''0.0'' = Some (Finite 0)"
  shows "\<not> allowsGzip pf ''gzip;q=0.0, *;q=0''"
  using assms by (simp add: negotiator_eval)

lemma allowsGzip_examples_bad:
  assumes "pf ''X'' = None"
  shows "\<not> allowsGzip pf ''gzip;q=X''"
  using assms by (simp add: negotiator_eval)

section \<open>Facts about the compressing response writer\<close>

lemma tell_fields [simp]:
  "z (tell g es) = z g" "skip (tell g es) = skip g" "pool (tell g es) = pool g"
  "wroteHeader (tell g es) = wroteHeader g"
  "header (w (tell g es)) = header (w g)" "calls (w (tell g es)) = calls (w g) @ es"
  "addr (w (tell g es)) = addr (w g)" "flusher (w (tell g es)) = flusher (w g)"
  by (simp_all add: tell_def)

lemma setHeader_fields [simp]:
  "z (setHeader g hs) = z g" "skip (setHeader g hs) = skip g" "pool (setHeader g hs) = pool g"
  "wroteHeader (setHeader g hs) = wroteHeader g"
  "header (w (setHeader g hs)) = hs" "calls (w (setHeader g hs)) = calls (w g)"
  "addr (w (setHeader g hs)) = addr (w g)" "flusher (w (setHeader g hs)) = flusher (w g)"
  by (simp_all add: setHeader_def)


lemma tell_Nil [simp]: "tell g [] = g"
  by (simp add: tell_def)

lemma Atoi_Nil [simp]: "Atoi [] = None"
  by (simp add: Atoi_def)

lemma init_decided: "skip g \<or> z g \<noteq> None \<Longrightarrow> init g = Inr g"
  by (auto simp: init_def)

lemma init_skip:
  "\<not> skip g \<Longrightarrow> z g = None \<Longrightarrow> skipRules (header (w g)) \<Longrightarrow> init g = Inr (g\<lparr>skip := True\<rparr>)"
  by (auto simp: init_def skipRules_def Let_def split: option.splits)

lemma init_compress:
  "\<not> skip g \<Longrightarrow> z g = None \<Longrightarrow> \<not> skipRules (header (w g)) \<Longrightarrow>
     init g = (case pool_Get (pool g) of Inl e \<Rightarrow> Inl e | Inr (s, p) \<Rightarrow> Inr (compressWith g s p))"
  by (auto simp: init_def skipRules_def Let_def compressWith_def split: option.splits sum.splits)

lemma pool_Get_valid:
  "NewWriterLevel (level p) = Inr () \<Longrightarrow> \<exists>s p'. pool_Get p = Inr (s, p') \<and> level p' = level p"
  by (cases "idle p") (simp_all add: pool_Get_def)

lemma compressWith_fields [simp]:
  "z (compressWith g s p) = Some s" "skip (compressWith g s p) = skip g"
  "pool (compressWith g s p) = p" "wroteHeader (compressWith g s p) = wroteHeader g"
  "calls (w (compressWith g s p)) =
     calls (w g) @ [GzReset s, HeaderSet hdrContentEncoding ''gzip'', HeaderDel hdrContentLength]"
  "header (w (compressWith g s p)) =
     Header_Del (Header_Set (header (w g)) hdrContentEncoding ''gzip'') hdrContentLength"
  "addr (w (compressWith g s p)) = addr (w g)" "flusher (w (compressWith g s p)) = flusher (w g)"
  by (simp_all add: compressWith_def)

lemma init_cases:
  assumes "init g = Inr g'"
  shows "((skip g \<or> z g \<noteq> None) \<and> g' = g) \<or>
         (\<not> skip g \<and> z g = None \<and> skipRules (header (w g)) \<and> g' = g\<lparr>skip := True\<rparr>) \<or>
         (\<exists>s p. \<not> skip g \<and> z g = None \<and> \<not> skipRules (header (w g)) \<and>
            pool_Get (pool g) = Inr (s, p) \<and> g' = compressWith g s p)"
proof (cases "skip g \<or> z g \<noteq> None")
  case True
  then have "init g = Inr g" by (rule init_decided)
  with assms True show ?thesis by simp
next
  case False
  then have u: "\<not> skip g" "z g = None" by auto
  show ?thesis
  proof (cases "skipRules (header (w g))")
    case True
    then have "init g = Inr (g\<lparr>skip := True\<rparr>)" using u by (simp add: init_skip)
    with assms u True show ?thesis by simp
  next
    case False
    then have "init g = (case pool_Get (pool g) of Inl e \<Rightarrow> Inl e
        | Inr (s, p) \<Rightarrow> Inr (compressWith g s p))"
      using u by (simp add: init_compress)
    with assms obtain s p where "pool_Get (pool g) = Inr (s, p)" "g' = compressWith g s p"
      by (cases "pool_Get (pool g)") auto
    with u False show ?thesis by blast
  qed
qed

lemma WriteHeader_deferred:
  assumes "code = StatusNoContent \<or> code = StatusNotModified \<or> code = StatusPartialContent"
  shows "WriteHeader g code = Inr (tell (g\<lparr>wroteHeader := True\<rparr>) [WriteHeaderCall code])"
  using assms by (auto simp: WriteHeader_def Let_def)

lemma WriteHeader_compressing:
  "z g \<noteq> None \<Longrightarrow> WriteHeader g code = Inr (tell (g\<lparr>wroteHeader := True\<rparr>) [WriteHeaderCall code])"
  by (auto simp: WriteHeader_def Let_def)

lemma WriteHeader_init:
  assumes "z g = None"
    and "code \<noteq> StatusNoContent" "code \<noteq> StatusNotModified" "code \<noteq> StatusPartialContent"
  shows "WriteHeader g code =
     (case init (g\<lparr>wroteHeader := True\<rparr>) of
        Inl e \<Rightarrow> Inl e | Inr g2 \<Rightarrow> Inr (tell g2 [WriteHeaderCall code]))"
  using assms by (simp add: WriteHeader_def Let_def)

lemma Write_after_header:
  "wroteHeader g \<Longrightarrow>
     Write dct g b =
       Inr (tell g [case z g of None \<Rightarrow> WriteCall b
                    | Some s \<Rightarrow> if skip g then WriteCall b else GzWrite s b])"
  by (simp add: Write_def split: option.splits)

lemma skipRules_iff:
  "skipRules hs \<longleftrightarrow>
     Header_Get hs hdrContentRange \<noteq> [] \<or>
     Header_Get hs hdrContentEncoding \<noteq> [] \<or>
     (\<exists>n. Atoi (Header_Get hs hdrContentLength) = Some n \<and> n < 1000) \<or>
     (Header_Get hs hdrContentType \<noteq> [] \<and> \<not> supportedContentType (Header_Get hs hdrContentType))"
  by (auto simp: skipRules_def compressThreshold_def split: option.splits)

lemma init_level:
  assumes "init g = Inr g'"
  shows "level (pool g') = level (pool g)"
proof -
  have "pool_Get (pool g) = Inr (s, p) \<Longrightarrow> level p = level (pool g)" for s p
    by (auto simp: pool_Get_def split: list.splits sum.splits)
  then show ?thesis using init_cases [OF assms] by auto
qed

lemma init_total:
  assumes "NewWriterLevel (level (pool g)) = Inr ()"
  shows "\<exists>g'. init g = Inr g'"
proof (cases "skip g \<or> z g \<noteq> None")
  case True
  then show ?thesis by (simp add: init_decided)
next
  case False
  then have u: "\<not> skip g" "z g = None" by auto
  show ?thesis
  proof (cases "skipRules (header (w g))")
    case True
    with u show ?thesis by (simp add: init_skip)
  next
    case False
    obtain s p where "pool_Get (pool g) = Inr (s, p)"
      using pool_Get_valid [OF assms] by blast
    with u False show ?thesis by (simp add: init_compress)
  qed
qed

lemma init_result_decided:
  assumes "init g = Inr g'"
  shows "skip g' \<or> z g' \<noteq> None"
  using init_cases [OF assms] by auto

lemma WriteHeader_total:
  assumes "NewWriterLevel (level (pool g)) = Inr ()"
  shows "\<exists>g'. WriteHeader g code = Inr g' \<and> level (pool g') = level (pool g)"
proof -
  let ?g1 = "g\<lparr>wroteHeader := True\<rparr>"
  have "NewWriterLevel (level (pool ?g1)) = Inr ()" using assms by simp
  then obtain g2 where g2: "init ?g1 = Inr g2" using init_total by blast
  then have "level (pool g2) = level (pool g)" using init_level [OF g2] by simp
  with g2 show ?thesis by (auto simp: WriteHeader_def Let_def)
qed

lemma Write_total:
  assumes "NewWriterLevel (level (pool g)) = Inr ()"
  shows "\<exists>g'. Write dct g b = Inr g' \<and> level (pool g') = level (pool g)"
proof (cases "wroteHeader g")
  case True
  then show ?thesis by (simp add: Write_after_header)
next
  case False
  let ?g0 = "if Header_Get (header (w g)) hdrContentType = []
             then tell (setHeader g (Header_Set (header (w g)) hdrContentType (dct b)))
                    [HeaderSet hdrContentType (dct b)]
             else g"
  have "NewWriterLevel (level (pool ?g0)) = Inr ()" using assms by simp
  then obtain g1 where g1: "WriteHeader ?g0 StatusOK = Inr g1" "level (pool g1) = level (pool ?g0)"
    using WriteHeader_total by blast
  then have "level (pool g1) = level (pool g)" by simp
  with g1(1) False show ?thesis
    by (auto simp: Write_def split: option.splits)
qed

lemma step_total:
  assumes "NewWriterLevel (level (pool g)) = Inr ()"
  shows "\<exists>g'. step dct g x = Inr g' \<and> level (pool g') = level (pool g)"
proof (cases x)
  case (DoHeader f)
  then show ?thesis by simp
next
  case (DoWriteHeader code)
  then show ?thesis using WriteHeader_total [OF assms] by simp
next
  case (DoWrite b)
  then show ?thesis using Write_total [OF assms] by simp
next
  case DoFlush
  then show ?thesis by (simp add: Flush_def)
qed

lemma run_total:
  assumes "NewWriterLevel (level (pool g)) = Inr ()"
  shows "\<exists>g'. run dct g xs = Inr g' \<and> level (pool g') = level (pool g)"
  using assms
proof (induction xs arbitrary: g)
  case Nil
  then show ?case by simp
next
  case (Cons x xs)
  obtain g1 where g1: "step dct g x = Inr g1" "level (pool g1) = level (pool g)"
    using step_total [OF Cons.prems] by blast
  then have "NewWriterLevel (level (pool g1)) = Inr ()" using Cons.prems by simp
  then obtain g' where "run dct g1 xs = Inr g'" "level (pool g') = level (pool g1)"
    using Cons.IH by blast
  with g1 show ?case by simp
qed

lemma Close_level: "level (pool (Close g)) = level (pool g)"
  by (simp add: Close_def pool_Put_def split: option.splits)

lemma ServeHTTP_total:
  assumes "NewWriterLevel (level (writerPool hnd)) = Inr ()"
  shows "\<exists>rw' p'. ServeHTTP pf dct hnd rw r = Inr (rw', p') \<and> level p' = level (writerPool hnd)"
proof (cases "acceptsGzip pf r")
  case False
  then show ?thesis by (simp add: ServeHTTP_def Let_def)
next
  case True
  let ?rw1 = "rw\<lparr>header := Header_Add (header rw) ''Vary'' hdrAcceptEncoding,
                  calls := calls rw @ [HeaderAdd ''Vary'' hdrAcceptEncoding]\<rparr>"
  have "NewWriterLevel (level (pool (gzipWrap ?rw1 (writerPool hnd)))) = Inr ()"
    using assms by (simp add: gzipWrap_def)
  then obtain g' where "run dct (gzipWrap ?rw1 (writerPool hnd)) (h hnd r) = Inr g'"
    "level (pool g') = level (pool (gzipWrap ?rw1 (writerPool hnd)))"
    using run_total by blast
  with True show ?thesis
    by (simp add: ServeHTTP_def Let_def Close_level gzipWrap_def)
qed

lemma NewWriterLevel_iff: "NewWriterLevel lv = Inr () \<longleftrightarrow> - 2 \<le> lv \<and> lv \<le> 9"
  by (auto simp: NewWriterLevel_def HuffmanOnly_def BestCompression_def)

lemma WithLevel_Inr:
  assumes "WithLevel lv = Inr opt"
  shows "NewWriterLevel lv = Inr ()" and "opt = (\<lambda>g. g\<lparr>writerPool := newWriterPool lv\<rparr>)"
  using assms by (auto simp: WithLevel_def split: sum.splits)

lemma New_level_valid:
  assumes "\<forall>opt\<in>set opts. \<exists>lv. WithLevel lv = Inr opt"
  shows "NewWriterLevel (level (writerPool (New hh opts))) = Inr ()"
proof -
  have "NewWriterLevel (level (writerPool g0)) = Inr () \<Longrightarrow>
        NewWriterLevel (level (writerPool (foldl (\<lambda>g fn. fn g) g0 opts))) = Inr ()" for g0
    using assms
  proof (induction opts arbitrary: g0)
    case Nil
    then show ?case by simp
  next
    case (Cons opt opts)
    then obtain lv where lv: "WithLevel lv = Inr opt" by auto
    have "NewWriterLevel (level (writerPool (opt g0))) = Inr ()"
      using WithLevel_Inr [OF lv] by (simp add: newWriterPool_def)
    then show ?case using Cons by simp
  qed
  moreover have "NewWriterLevel (level (writerPool \<lparr>h = hh, writerPool = newWriterPool BestSpeed\<rparr>)) = Inr ()"
    by (simp add: newWriterPool_def BestSpeed_def NewWriterLevel_iff)
  ultimately show ?thesis by (simp add: New_def)
qed

lemmas header_eval =
  Header_Get_def Header_Set_def Header_Add_def Header_Del_def hdrContentRange_def
  hdrContentEncoding_def hdrContentLength_def hdrContentType_def hdrAcceptEncoding_def

lemma Atoi_samples: "Atoi ''999'' = Some 999" "Atoi ''1000'' = Some 1000"
  by (simp_all add: Atoi_def isDigit_def decimal_def)

lemma firstCode_append:
  "firstCode (tr @ es) = (case firstCode tr of Some c \<Rightarrow> Some c | None \<Rightarrow> firstCode es)"
  by (induction tr rule: firstCode.induct) simp_all

lemma firstCode_neutral: "\<forall>e\<in>set es. neutral e \<Longrightarrow> firstCode es = None"
proof (induction es)
  case Nil
  then show ?case by simp
next
  case (Cons e es)
  then have "firstCode [e] = None" "firstCode es = None" by (simp_all add: neutral_def)
  then show ?case using firstCode_append [of "[e]" es] by simp
qed

lemma filter_touches_neutral: "\<forall>e\<in>set es. neutral e \<Longrightarrow> filter touches es = []"
  by (induction es) (simp_all add: neutral_def)

lemma touched_simps [simp]:
  "touched [] = False" "touched (e # es) = (touches e \<or> touched es)"
  "touched (tr @ es) = (touched tr \<or> touched es)"
  by (auto simp: touched_def)

lemma touched_neutral: "\<forall>e\<in>set es. neutral e \<Longrightarrow> \<not> touched es"
  by (induction es) (simp_all add: neutral_def)

lemma untouched_takeWhile:
  "\<not> touched tr \<Longrightarrow>
     takeWhile (\<lambda>e. \<not> touches e) (tr @ es) = tr @ takeWhile (\<lambda>e. \<not> touches e) es"
  by (induction tr) auto

lemma touched_takeWhile:
  "touched tr \<Longrightarrow> takeWhile (\<lambda>e. \<not> touches e) (tr @ es) = takeWhile (\<lambda>e. \<not> touches e) tr"
  by (induction tr) auto

lemma untouched_takeWhile_id: "\<not> touched tr \<Longrightarrow> takeWhile (\<lambda>e. \<not> touches e) tr = tr"
  using untouched_takeWhile [of tr "[]"] by simp

lemma no_body_neutral: "\<forall>e\<in>set es. neutral e \<Longrightarrow> \<not> list_ex isBody es"
  by (induction es) (simp_all add: neutral_def)

lemma isGzWrite_isBody: "isGzWrite e \<Longrightarrow> isBody e"
  by (cases e) simp_all

lemma no_gz_neutral: "\<forall>e\<in>set es. neutral e \<Longrightarrow> \<not> list_ex isGzWrite es"
  by (induction es) (auto simp: neutral_def dest: isGzWrite_isBody)

lemma gzBefore_untouched: "\<not> touched tr \<Longrightarrow> gzBeforeMutation tr \<longleftrightarrow> list_ex isGzWrite tr"
  by (simp add: gzBeforeMutation_def untouched_takeWhile_id)

lemma gzBefore_append:
  "gzBeforeMutation (tr @ es) \<longleftrightarrow>
     (if touched tr then gzBeforeMutation tr else list_ex isGzWrite tr \<or> gzBeforeMutation es)"
  by (simp add: gzBeforeMutation_def untouched_takeWhile touched_takeWhile)

lemma bodyBefore_untouched: "\<not> touched tr \<Longrightarrow> \<not> bodyBeforeMutation tr"
  by (simp add: bodyBeforeMutation_def touched_def list_ex_iff filter_empty_conv)

lemma bodyBefore_append:
  "bodyBeforeMutation (tr @ es) \<longleftrightarrow>
     (if touched tr then bodyBeforeMutation tr
      else touched es \<and>
           (list_ex isBody tr \<or> list_ex isBody (takeWhile (\<lambda>e. \<not> touches e) es)))"
proof (cases "touched tr")
  case True
  then have "list_ex touches tr" "list_ex touches (tr @ es)"
    by (auto simp: touched_def list_ex_iff filter_empty_conv)
  with True show ?thesis
    by (simp add: bodyBeforeMutation_def touched_takeWhile del: list_ex_append)
next
  case False
  then have "list_ex touches (tr @ es) \<longleftrightarrow> touched es"
    by (auto simp: touched_def list_ex_iff filter_empty_conv)
  with False show ?thesis
    by (simp add: bodyBeforeMutation_def untouched_takeWhile del: list_ex_append)
      (auto simp: list_ex_iff)
qed

lemma mutations_touched [simp]: "filter touches mutations = mutations" "touched mutations"
  by (simp_all add: mutations_def)

lemma Inv_touched: "Inv sk zz wh tr \<Longrightarrow> touched tr \<longleftrightarrow> zz \<noteq> None"
  by (auto simp: Inv_def touched_def mutations_def)

lemma Inv_initial: "Inv False None False []"
  by (simp add: Inv_def gzBeforeMutation_def)

lemma Inv_neutral:
  assumes "Inv sk zz wh tr" and "\<forall>e\<in>set es. neutral e"
  shows "Inv sk zz wh (tr @ es)"
proof -
  note n = firstCode_neutral [OF assms(2)] filter_touches_neutral [OF assms(2)]
    touched_neutral [OF assms(2)] no_body_neutral [OF assms(2)] no_gz_neutral [OF assms(2)]
  have fc: "firstCode (tr @ es) = firstCode tr"
    using n(1) by (simp add: firstCode_append split: option.splits)
  have "gzBeforeMutation es = list_ex isGzWrite es"
    using n(3) by (rule gzBefore_untouched)
  then have gz: "gzBeforeMutation (tr @ es) = gzBeforeMutation tr"
    using n(5) by (simp add: gzBefore_append gzBefore_untouched)
  have bb: "bodyBeforeMutation (tr @ es) = bodyBeforeMutation tr"
    using n(3) by (simp add: bodyBefore_append bodyBefore_untouched)
  have le: "list_ex isBody (tr @ es) = list_ex isBody tr"
    using n(4) by simp
  show ?thesis
    using assms(1) n(2) unfolding Inv_def fc gz bb le by simp
qed

lemma gzBefore_single:
  assumes "\<not> isGzWrite e"
  shows "gzBeforeMutation (tr @ [e]) = gzBeforeMutation tr"
proof (cases "touched tr")
  case True
  then show ?thesis by (simp add: gzBefore_append)
next
  case False
  have "\<not> gzBeforeMutation [e]" using assms by (simp add: gzBeforeMutation_def)
  with False show ?thesis by (simp add: gzBefore_append gzBefore_untouched)
qed

lemma Inv_commit_same:
  assumes "Inv sk zz wh tr" and "deferredCode c \<or> sk \<or> zz \<noteq> None"
  shows "Inv sk zz True (tr @ [WriteHeaderCall c])"
proof -
  have gz: "gzBeforeMutation (tr @ [WriteHeaderCall c]) = gzBeforeMutation tr"
    by (simp add: gzBefore_single)
  have bb: "bodyBeforeMutation (tr @ [WriteHeaderCall c]) = bodyBeforeMutation tr"
    by (simp add: bodyBefore_append bodyBefore_untouched)
  show ?thesis
    using assms unfolding Inv_def gz bb
    by (auto simp: firstCode_append split: option.splits)
qed

lemma Inv_commit_skip:
  assumes "Inv False None wh tr" and "\<not> deferredCode c"
  shows "Inv True None True (tr @ [WriteHeaderCall c])"
proof -
  have gz: "gzBeforeMutation (tr @ [WriteHeaderCall c]) = gzBeforeMutation tr"
    by (simp add: gzBefore_single)
  have "\<not> touched tr" using Inv_touched [OF assms(1)] by simp
  then have bb: "\<not> bodyBeforeMutation (tr @ [WriteHeaderCall c])"
    by (simp add: bodyBefore_append)
  show ?thesis
    using assms bb unfolding Inv_def gz
    by (auto simp: firstCode_append split: option.splits)
qed

lemma Inv_commit_compress:
  assumes "Inv False None wh tr" and "\<not> deferredCode c"
  shows "Inv False (Some s) True (tr @ GzReset s # mutations @ [WriteHeaderCall c])"
proof -
  let ?es = "GzReset s # mutations @ [WriteHeaderCall c]"
  have nt: "\<not> touched tr" using Inv_touched [OF assms(1)] by simp
  have f0: "filter touches tr = []" using assms(1) by (simp add: Inv_def)
  have ft: "filter touches (tr @ ?es) = mutations"
    using f0 by simp
  have ngz: "\<not> list_ex isGzWrite tr"
    using assms(1) nt by (simp add: Inv_def gzBefore_untouched)
  have g1: "\<not> gzBeforeMutation ?es"
    by (simp add: gzBeforeMutation_def mutations_def)
  have b1: "\<not> list_ex isBody (takeWhile (\<lambda>e. \<not> touches e) ?es)"
    by (simp add: mutations_def)
  have gz: "\<not> gzBeforeMutation (tr @ ?es)"
    using nt ngz g1 by (simp only: gzBefore_append if_False simp_thms)
  have fc: "firstCode ?es = Some c"
    by (simp add: mutations_def)
  have bb: "\<not> bodyBeforeMutation (tr @ ?es)" if "firstCode tr = None"
  proof -
    have "\<not> wh" using assms(1) that by (auto simp: Inv_def)
    then have "\<not> list_ex isBody tr" using assms(1) by (simp add: Inv_def)
    then show ?thesis using nt b1 by (simp only: bodyBefore_append if_False simp_thms)
  qed
  have old: "deferredCode c0" if "firstCode tr = Some c0" for c0
    using assms(1) that by (auto simp: Inv_def)
  have i5: "\<not> bodyBeforeMutation (tr @ ?es)"
    if a: "firstCode (tr @ ?es) = Some c'" "\<not> deferredCode c'" for c'
  proof (cases "firstCode tr")
    case None
    then show ?thesis by (rule bb)
  next
    case (Some c0)
    then have "firstCode (tr @ ?es) = Some c0" by (simp add: firstCode_append)
    with a old [OF Some] show ?thesis by simp
  qed
  have i6: "firstCode (tr @ ?es) \<noteq> None"
    using fc by (simp add: firstCode_append split: option.splits)
  show ?thesis
    unfolding Inv_def using ft gz i5 i6 by auto
qed

lemma Inv_body_raw:
  assumes "Inv sk zz True tr"
  shows "Inv sk zz True (tr @ [WriteCall b])"
proof -
  have gz: "gzBeforeMutation (tr @ [WriteCall b]) = gzBeforeMutation tr"
    by (simp add: gzBefore_single)
  have bb: "bodyBeforeMutation (tr @ [WriteCall b]) \<longleftrightarrow> touched tr \<and> bodyBeforeMutation tr"
    by (simp add: bodyBefore_append)
  show ?thesis
    using assms unfolding Inv_def gz bb
    by (auto simp: firstCode_append split: option.splits)
qed

lemma Inv_body_gz:
  assumes "Inv False (Some s) True tr"
  shows "Inv False (Some s) True (tr @ [GzWrite s b])"
proof -
  have t: "touched tr" using Inv_touched [OF assms] by simp
  have gz: "gzBeforeMutation (tr @ [GzWrite s b]) = gzBeforeMutation tr"
    using t by (simp add: gzBefore_append)
  have bb: "bodyBeforeMutation (tr @ [GzWrite s b]) = bodyBeforeMutation tr"
    using t by (simp add: bodyBefore_append)
  show ?thesis
    using assms unfolding Inv_def gz bb
    by (auto simp: firstCode_append split: option.splits)
qed

lemma deferredCode_iff:
  "deferredCode c \<longleftrightarrow>
     c = StatusNoContent \<or> c = StatusNotModified \<or> c = StatusPartialContent"
  by (auto simp: deferredCode_def StatusNoContent_def StatusNotModified_def
      StatusPartialContent_def)

lemma compressWith_calls:
  "calls (w (compressWith g s p)) = calls (w g) @ GzReset s # mutations"
  by (simp add: mutations_def)

lemma WriteHeader_cases:
  assumes "WriteHeader g code = Inr g'"
  shows "((deferredCode code \<or> skip g \<or> z g \<noteq> None) \<and>
            g' = tell (g\<lparr>wroteHeader := True\<rparr>) [WriteHeaderCall code]) \<or>
         (\<not> deferredCode code \<and> \<not> skip g \<and> z g = None \<and> skipRules (header (w g)) \<and>
            g' = tell (g\<lparr>wroteHeader := True, skip := True\<rparr>) [WriteHeaderCall code]) \<or>
         (\<exists>s p. \<not> deferredCode code \<and> \<not> skip g \<and> z g = None \<and> \<not> skipRules (header (w g)) \<and>
            pool_Get (pool g) = Inr (s, p) \<and>
            g' = tell (compressWith (g\<lparr>wroteHeader := True\<rparr>) s p) [WriteHeaderCall code])"
proof (cases "deferredCode code \<or> z g \<noteq> None")
  case True
  then have "WriteHeader g code = Inr (tell (g\<lparr>wroteHeader := True\<rparr>) [WriteHeaderCall code])"
    using WriteHeader_deferred [of code g] WriteHeader_compressing [of g code]
    unfolding deferredCode_iff by blast
  with assms True show ?thesis by auto
next
  case False
  then have nd: "\<not> deferredCode code" and zn: "z g = None" by auto
  let ?g1 = "g\<lparr>wroteHeader := True\<rparr>"
  have wh: "WriteHeader g code =
      (case init ?g1 of Inl e \<Rightarrow> Inl e | Inr g2 \<Rightarrow> Inr (tell g2 [WriteHeaderCall code]))"
    using nd zn unfolding deferredCode_iff by (intro WriteHeader_init) auto
  with assms obtain g2 where g2: "init ?g1 = Inr g2" "g' = tell g2 [WriteHeaderCall code]"
    by (cases "init ?g1") auto
  from init_cases [OF g2(1)] consider
      (same) "skip g" "g2 = ?g1"
    | (skipped) "\<not> skip g" "skipRules (header (w g))" "g2 = ?g1\<lparr>skip := True\<rparr>"
    | (compress) s p where "\<not> skip g" "\<not> skipRules (header (w g))"
        "pool_Get (pool g) = Inr (s, p)" "g2 = compressWith ?g1 s p"
    using zn by auto
  then show ?thesis
  proof cases
    case same
    with g2(2) show ?thesis by simp
  next
    case skipped
    with g2(2) nd zn show ?thesis by simp
  next
    case compress
    with g2(2) nd zn show ?thesis by simp
  qed
qed

lemma WriteHeader_casesE:
  assumes "WriteHeader g code = Inr g'"
  obtains (same) "deferredCode code \<or> skip g \<or> z g \<noteq> None"
      "g' = tell (g\<lparr>wroteHeader := True\<rparr>) [WriteHeaderCall code]"
  | (skipped) "\<not> deferredCode code" "\<not> skip g" "z g = None" "skipRules (header (w g))"
      "g' = tell (g\<lparr>wroteHeader := True, skip := True\<rparr>) [WriteHeaderCall code]"
  | (compress) s p where "\<not> deferredCode code" "\<not> skip g" "z g = None"
      "\<not> skipRules (header (w g))" "pool_Get (pool g) = Inr (s, p)"
      "g' = tell (compressWith (g\<lparr>wroteHeader := True\<rparr>) s p) [WriteHeaderCall code]"
  using WriteHeader_cases [OF assms] by (elim disjE conjE exE) auto

lemma WriteHeader_GInv:
  assumes "WriteHeader g code = Inr g'" and "GInv base g tr"
  shows "\<exists>es. GInv base g' (tr @ es)"
proof -
  have c: "calls (w g) = base @ tr" and i: "Inv (skip g) (z g) (wroteHeader g) tr"
    using assms(2) by (simp_all add: GInv_def)
  from assms(1) show ?thesis
  proof (cases rule: WriteHeader_casesE)
    case same
    have "Inv (skip g) (z g) True (tr @ [WriteHeaderCall code])"
      using i same(1) by (rule Inv_commit_same)
    then have "GInv base g' (tr @ [WriteHeaderCall code])"
      using c same(2) by (simp add: GInv_def)
    then show ?thesis ..
  next
    case skipped
    have "Inv True None True (tr @ [WriteHeaderCall code])"
      using i skipped(1,2,3) by (intro Inv_commit_skip) auto
    then have "GInv base g' (tr @ [WriteHeaderCall code])"
      using c skipped by (simp add: GInv_def)
    then show ?thesis ..
  next
    case (compress s p)
    have "Inv False (Some s) True (tr @ GzReset s # mutations @ [WriteHeaderCall code])"
      using i compress(1,2,3) by (intro Inv_commit_compress) auto
    then have "GInv base g' (tr @ GzReset s # mutations @ [WriteHeaderCall code])"
      using c compress by (simp add: GInv_def compressWith_calls del: compressWith_fields(5))
    then show ?thesis ..
  qed
qed

lemma WriteHeader_wrote: "WriteHeader g code = Inr g' \<Longrightarrow> wroteHeader g'"
  using WriteHeader_cases [of g code g'] by auto

lemma Write_body_GInv:
  assumes "wroteHeader g" and "GInv base g tr"
  shows "\<exists>g' es. Write dct g b = Inr g' \<and> GInv base g' (tr @ es)"
proof -
  have c: "calls (w g) = base @ tr" and i: "Inv (skip g) (z g) True tr"
    using assms by (simp_all add: GInv_def)
  show ?thesis
  proof (cases "z g")
    case None
    then have "Write dct g b = Inr (tell g [WriteCall b])"
      using assms(1) by (simp add: Write_after_header)
    moreover have "GInv base (tell g [WriteCall b]) (tr @ [WriteCall b])"
      using c Inv_body_raw [OF i] assms(1) by (simp add: GInv_def)
    ultimately show ?thesis by blast
  next
    case (Some s)
    then have ns: "\<not> skip g" using i by (auto simp: Inv_def)
    then have "Write dct g b = Inr (tell g [GzWrite s b])"
      using assms(1) Some by (simp add: Write_after_header)
    moreover have "Inv False (Some s) True (tr @ [GzWrite s b])"
      using i ns Some by (intro Inv_body_gz) simp
    then have "GInv base (tell g [GzWrite s b]) (tr @ [GzWrite s b])"
      using c ns Some assms(1) by (simp add: GInv_def)
    ultimately show ?thesis by blast
  qed
qed

lemma neutral_sniff: "neutral (HeaderSet hdrContentType v)"
  by (simp add: neutral_def hdrContentType_def hdrContentEncoding_def hdrContentLength_def)

lemma sniffed_GInv:
  assumes "GInv base g tr"
  shows "\<exists>es. GInv base (sniffed dct g b) (tr @ es)"
proof (cases "Header_Get (header (w g)) hdrContentType = []")
  case True
  have "Inv (skip g) (z g) (wroteHeader g) (tr @ [HeaderSet hdrContentType (dct b)])"
    using assms neutral_sniff by (intro Inv_neutral) (simp_all add: GInv_def)
  then have "GInv base (sniffed dct g b) (tr @ [HeaderSet hdrContentType (dct b)])"
    using assms True by (simp add: GInv_def sniffed_def)
  then show ?thesis ..
next
  case False
  then have "GInv base (sniffed dct g b) (tr @ [])"
    using assms by (simp add: sniffed_def)
  then show ?thesis ..
qed

lemma Write_unfold:
  assumes "\<not> wroteHeader g"
  shows "Write dct g b =
     (case WriteHeader (sniffed dct g b) StatusOK of
        Inl e \<Rightarrow> Inl e | Inr g1 \<Rightarrow> Write dct g1 b)"
proof (cases "WriteHeader (sniffed dct g b) StatusOK")
  case (Inl e)
  then show ?thesis using assms by (simp add: Write_def sniffed_def)
next
  case (Inr g1)
  then have "wroteHeader g1" by (rule WriteHeader_wrote)
  then have "Write dct g1 b =
      Inr (tell g1 [case z g1 of None \<Rightarrow> WriteCall b
                    | Some s \<Rightarrow> if skip g1 then WriteCall b else GzWrite s b])"
    by (rule Write_after_header)
  then show ?thesis using assms Inr
    by (simp add: Write_def sniffed_def split: option.splits)
qed

lemma Write_GInv:
  assumes "Write dct g b = Inr g'" and "GInv base g tr"
  shows "\<exists>es. GInv base g' (tr @ es)"
proof (cases "wroteHeader g")
  case True
  then show ?thesis using Write_body_GInv [OF True assms(2), of dct b] assms(1) by auto
next
  case False
  obtain es0 where e0: "GInv base (sniffed dct g b) (tr @ es0)"
    using sniffed_GInv [OF assms(2)] by blast
  from assms(1) False obtain g1 where g1: "WriteHeader (sniffed dct g b) StatusOK = Inr g1"
    "Write dct g1 b = Inr g'"
    by (cases "WriteHeader (sniffed dct g b) StatusOK") (simp_all add: Write_unfold)
  obtain es1 where e1: "GInv base g1 ((tr @ es0) @ es1)"
    using WriteHeader_GInv [OF g1(1) e0] by blast
  have "wroteHeader g1" using g1(1) by (rule WriteHeader_wrote)
  then obtain es2 where "GInv base g' (((tr @ es0) @ es1) @ es2)"
    using Write_body_GInv [OF _ e1, of dct b] g1(2) by auto
  then have "GInv base g' (tr @ (es0 @ es1 @ es2))" by simp
  then show ?thesis ..
qed

lemma neutral_flush: "neutral (GzFlush s)" "neutral FlushCall"
  by (simp_all add: neutral_def)

lemma Flush_GInv:
  assumes "GInv base g tr"
  shows "\<exists>es. GInv base (Flush g) (tr @ es)"
proof -
  let ?es = "(case z g of None \<Rightarrow> [] | Some s \<Rightarrow> [GzFlush s]) @
             (if flusher (w g) then [FlushCall] else [])"
  have "\<forall>e\<in>set ?es. neutral e"
    using neutral_flush by (auto split: option.splits)
  then have "Inv (skip g) (z g) (wroteHeader g) (tr @ ?es)"
    using assms by (intro Inv_neutral) (simp_all add: GInv_def)
  then have "GInv base (Flush g) (tr @ ?es)"
    using assms by (simp add: GInv_def Flush_def)
  then show ?thesis ..
qed

lemma step_GInv:
  assumes "step dct g x = Inr g'" and "GInv base g tr"
  shows "\<exists>es. GInv base g' (tr @ es)"
proof (cases x)
  case (DoHeader f)
  then have "GInv base g' (tr @ [])" using assms by (auto simp: GInv_def)
  then show ?thesis ..
next
  case (DoWriteHeader code)
  then show ?thesis using assms WriteHeader_GInv by simp
next
  case (DoWrite b)
  then show ?thesis using assms Write_GInv by simp
next
  case DoFlush
  then show ?thesis using assms Flush_GInv by auto
qed

lemma run_GInv:
  assumes "run dct g xs = Inr g'" and "GInv base g tr"
  shows "\<exists>es. GInv base g' (tr @ es)"
  using assms
proof (induction xs arbitrary: g tr)
  case Nil
  then have "GInv base g' (tr @ [])" by simp
  then show ?case ..
next
  case (Cons x xs)
  from Cons.prems(1) obtain g1 where g1: "step dct g x = Inr g1" "run dct g1 xs = Inr g'"
    by (cases "step dct g x") simp_all
  obtain es1 where "GInv base g1 (tr @ es1)"
    using step_GInv [OF g1(1) Cons.prems(2)] by blast
  then obtain es2 where "GInv base g' ((tr @ es1) @ es2)"
    using Cons.IH [OF g1(2)] by blast
  then have "GInv base g' (tr @ (es1 @ es2))" by simp
  then show ?case ..
qed

lemma run_reachable_Inv:
  assumes "run dct (gzipWrap rw p) xs = Inr g"
  shows "calls (w g) = calls rw @ since rw g"
    and "Inv (skip g) (z g) (wroteHeader g) (since rw g)"
proof -
  have "GInv (calls rw) (gzipWrap rw p) []"
    by (simp add: GInv_def gzipWrap_def Inv_initial)
  then obtain es where "GInv (calls rw) g ([] @ es)"
    using run_GInv [OF assms] by blast
  then have "calls (w g) = calls rw @ es" "Inv (skip g) (z g) (wroteHeader g) es"
    by (simp_all add: GInv_def)
  moreover from this have "since rw g = es" by (simp add: since_def)
  ultimately show "calls (w g) = calls rw @ since rw g"
    and "Inv (skip g) (z g) (wroteHeader g) (since rw g)" by simp_all
qed






lemma WriteHeader_frame:
  assumes "WriteHeader g code = Inr g'"
  shows "addr (w g') = addr (w g)" and "flusher (w g') = flusher (w g)"
    and "header (w g') ''Vary'' = header (w g) ''Vary''"
    and "\<exists>es. calls (w g') = calls (w g) @ es"
  using assms
  by (cases rule: WriteHeader_casesE;
      simp add: Header_Del_def Header_Set_def hdrContentEncoding_def hdrContentLength_def)+

lemma sniffed_frame:
  "addr (w (sniffed dct g b)) = addr (w g)" "flusher (w (sniffed dct g b)) = flusher (w g)"
  "header (w (sniffed dct g b)) ''Vary'' = header (w g) ''Vary''"
  "\<exists>es. calls (w (sniffed dct g b)) = calls (w g) @ es"
  "skip (sniffed dct g b) = skip g" "z (sniffed dct g b) = z g" "pool (sniffed dct g b) = pool g"
  "wroteHeader (sniffed dct g b) = wroteHeader g"
  by (simp_all add: sniffed_def Header_Set_def hdrContentType_def)

lemma Write_frame:
  assumes "Write dct g b = Inr g'"
  shows "addr (w g') = addr (w g)" and "flusher (w g') = flusher (w g)"
    and "header (w g') ''Vary'' = header (w g) ''Vary''"
    and "\<exists>es. calls (w g') = calls (w g) @ es"
proof -
  have "addr (w g') = addr (w g) \<and> flusher (w g') = flusher (w g) \<and>
        header (w g') ''Vary'' = header (w g) ''Vary'' \<and> (\<exists>es. calls (w g') = calls (w g) @ es)"
  proof (cases "wroteHeader g")
    case True
    then show ?thesis using assms by (auto simp: Write_after_header)
  next
    case False
    from assms False obtain g1 where g1: "WriteHeader (sniffed dct g b) StatusOK = Inr g1"
      "Write dct g1 b = Inr g'"
      by (cases "WriteHeader (sniffed dct g b) StatusOK") (simp_all add: Write_unfold)
    have "wroteHeader g1" using g1(1) by (rule WriteHeader_wrote)
    then have "g' = tell g1 [case z g1 of None \<Rightarrow> WriteCall b
                    | Some s \<Rightarrow> if skip g1 then WriteCall b else GzWrite s b]"
      using g1(2) by (simp add: Write_after_header)
    moreover obtain es0 where "calls (w (sniffed dct g b)) = calls (w g) @ es0"
      using sniffed_frame(4) by blast
    moreover obtain es1 where "calls (w g1) = calls (w (sniffed dct g b)) @ es1"
      using WriteHeader_frame(4) [OF g1(1)] by blast
    ultimately show ?thesis
      using WriteHeader_frame(1,2,3) [OF g1(1)] sniffed_frame(1,2,3) [of dct g b] by simp
  qed
  then show "addr (w g') = addr (w g)" and "flusher (w g') = flusher (w g)"
    and "header (w g') ''Vary'' = header (w g) ''Vary''"
    and "\<exists>es. calls (w g') = calls (w g) @ es" by simp_all
qed

lemma step_frame:
  assumes "step dct g x = Inr g'"
  shows "addr (w g') = addr (w g)" and "flusher (w g') = flusher (w g)"
    and "keepsVary x \<Longrightarrow> header (w g') ''Vary'' = header (w g) ''Vary''"
    and "\<exists>es. calls (w g') = calls (w g) @ es"
proof -
  have "addr (w g') = addr (w g) \<and> flusher (w g') = flusher (w g) \<and>
        (keepsVary x \<longrightarrow> header (w g') ''Vary'' = header (w g) ''Vary'') \<and>
        (\<exists>es. calls (w g') = calls (w g) @ es)"
  proof (cases x)
    case (DoHeader f)
    then show ?thesis using assms by auto
  next
    case (DoWriteHeader code)
    then show ?thesis using assms WriteHeader_frame [of g code g'] by simp
  next
    case (DoWrite b)
    then show ?thesis using assms Write_frame [of dct g b g'] by simp
  next
    case DoFlush
    then show ?thesis using assms by (auto simp: Flush_def)
  qed
  then show "addr (w g') = addr (w g)" and "flusher (w g') = flusher (w g)"
    and "keepsVary x \<Longrightarrow> header (w g') ''Vary'' = header (w g) ''Vary''"
    and "\<exists>es. calls (w g') = calls (w g) @ es" by simp_all
qed

lemma run_frame:
  assumes "run dct g xs = Inr g'"
  shows "addr (w g') = addr (w g) \<and> flusher (w g') = flusher (w g) \<and>
         ((\<forall>x\<in>set xs. keepsVary x) \<longrightarrow> header (w g') ''Vary'' = header (w g) ''Vary'') \<and>
         (\<exists>es. calls (w g') = calls (w g) @ es)"
  using assms
proof (induction xs arbitrary: g)
  case Nil
  then show ?case by simp
next
  case (Cons x xs)
  from Cons.prems obtain g1 where g1: "step dct g x = Inr g1" "run dct g1 xs = Inr g'"
    by (cases "step dct g x") simp_all
  obtain es1 where "calls (w g1) = calls (w g) @ es1"
    using step_frame(4) [OF g1(1)] by blast
  moreover obtain es2 where "calls (w g') = calls (w g1) @ es2"
    using Cons.IH [OF g1(2)] by blast
  ultimately have "calls (w g') = calls (w g) @ (es1 @ es2)" by simp
  then have "\<exists>es. calls (w g') = calls (w g) @ es" ..
  then show ?case
    using step_frame(1,2,3) [OF g1(1)] Cons.IH [OF g1(2)] by simp
qed

lemma runRaw_frame:
  "addr (runRaw rw xs) = addr rw \<and>
   ((\<forall>x\<in>set xs. keepsVary x) \<longrightarrow> header (runRaw rw xs) ''Vary'' = header rw ''Vary'') \<and>
   (\<exists>es. calls (runRaw rw xs) = calls rw @ es)"
  unfolding runRaw_def
proof (induction xs arbitrary: rw)
  case Nil
  then show ?case by simp
next
  case (Cons x xs)
  have s: "addr (stepRaw rw x) = addr rw \<and>
      (keepsVary x \<longrightarrow> header (stepRaw rw x) ''Vary'' = header rw ''Vary'') \<and>
      (\<exists>es. calls (stepRaw rw x) = calls rw @ es)"
    by (cases x) auto
  then obtain es1 where "calls (stepRaw rw x) = calls rw @ es1" by blast
  moreover obtain es2 where "calls (foldl stepRaw (stepRaw rw x) xs) = calls (stepRaw rw x) @ es2"
    using Cons.IH [of "stepRaw rw x"] by blast
  ultimately have "calls (foldl stepRaw (stepRaw rw x) xs) = calls rw @ (es1 @ es2)" by simp
  then have "\<exists>es. calls (foldl stepRaw (stepRaw rw x) xs) = calls rw @ es" ..
  then show ?case using s Cons.IH [of "stepRaw rw x"] by simp
qed

lemma Close_frame:
  "addr (w (Close g)) = addr (w g)" "header (w (Close g)) = header (w g)"
  "\<exists>es. calls (w (Close g)) = calls (w g) @ es"
  by (simp_all add: Close_def split: option.splits)

lemma Header_Get_other:
  "k \<noteq> k' \<Longrightarrow> Header_Get (Header_Set hs k' v) k = Header_Get hs k"
  "k \<noteq> k' \<Longrightarrow> Header_Get (Header_Del hs k') k = Header_Get hs k"
  "Header_Get (Header_Set hs k v) k = v"
  by (simp_all add: Header_Get_def Header_Set_def Header_Del_def)

lemma hdr_distinct:
  "hdrContentType \<noteq> hdrContentEncoding" "hdrContentType \<noteq> hdrContentLength"
  "hdrContentType \<noteq> hdrContentRange" "hdrContentRange \<noteq> hdrContentType"
  "hdrContentEncoding \<noteq> hdrContentType" "hdrContentLength \<noteq> hdrContentType"
  by (simp_all add: hdrContentType_def hdrContentEncoding_def hdrContentLength_def
      hdrContentRange_def)

lemma first_Write:
  assumes u: "\<not> wroteHeader g" "\<not> skip g" "z g = None"
    and v: "NewWriterLevel (level (pool g)) = Inr ()"
  shows "\<exists>g'. Write dct g b = Inr g' \<and> wroteHeader g'
      \<and> Header_Get (header (w g')) hdrContentType = Header_Get (header (w (sniffed dct g b))) hdrContentType
      \<and> (skip g' \<longleftrightarrow> skipRules (header (w (sniffed dct g b))))
      \<and> (z g' \<noteq> None \<longleftrightarrow> \<not> skipRules (header (w (sniffed dct g b))))
      \<and> calls (w g') = calls (w (sniffed dct g b)) @
          (case z g' of
             None \<Rightarrow> [WriteHeaderCall 200, WriteCall b]
           | Some s \<Rightarrow> GzReset s # mutations @ [WriteHeaderCall 200, GzWrite s b])"
proof -
  let ?g0 = "sniffed dct g b"
  let ?g1 = "?g0\<lparr>wroteHeader := True\<rparr>"
  have u0: "\<not> skip ?g0" "z ?g0 = None" "pool ?g0 = pool g"
    using u by (simp_all add: sniffed_frame)
  have nd: "StatusOK \<noteq> StatusNoContent" "StatusOK \<noteq> StatusNotModified"
    "StatusOK \<noteq> StatusPartialContent"
    by (simp_all add: StatusOK_def StatusNoContent_def StatusNotModified_def
        StatusPartialContent_def)
  have wh: "WriteHeader ?g0 StatusOK =
      (case init ?g1 of Inl e \<Rightarrow> Inl e | Inr g2 \<Rightarrow> Inr (tell g2 [WriteHeaderCall StatusOK]))"
    using u0(2) nd by (rule WriteHeader_init)
  show ?thesis
  proof (cases "skipRules (header (w ?g0))")
    case True
    then have "init ?g1 = Inr (?g1\<lparr>skip := True\<rparr>)"
      using u0 by (intro init_skip) simp_all
    then have "WriteHeader ?g0 StatusOK = Inr (tell (?g1\<lparr>skip := True\<rparr>) [WriteHeaderCall StatusOK])"
      using wh by simp
    then have "Write dct g b =
        Inr (tell (tell (?g1\<lparr>skip := True\<rparr>) [WriteHeaderCall StatusOK]) [WriteCall b])"
      using u(1) u0 by (simp add: Write_unfold Write_after_header)
    then show ?thesis using True u0 by (simp add: StatusOK_def)
  next
    case False
    obtain s p where sp: "pool_Get (pool g) = Inr (s, p)"
      using pool_Get_valid [OF v] by blast
    have "init ?g1 = Inr (compressWith ?g1 s p)"
      using False u0 sp by (simp add: init_compress)
    then have "WriteHeader ?g0 StatusOK =
        Inr (tell (compressWith ?g1 s p) [WriteHeaderCall StatusOK])"
      using wh by simp
    then have "Write dct g b =
        Inr (tell (tell (compressWith ?g1 s p) [WriteHeaderCall StatusOK]) [GzWrite s b])"
      using u(1) u0 by (simp add: Write_unfold Write_after_header)
    then show ?thesis using False u0
      by (simp add: StatusOK_def mutations_def Header_Get_other hdr_distinct)
  qed
qed

lemmas writer_eval =
  gzipWrap_def rw_sample_def WriteHeader_def Write_def init_def Let_def tell_def setHeader_def
  Flush_def Close_def StatusOK_def StatusNoContent_def StatusNotModified_def
  StatusPartialContent_def compressThreshold_def pool_Get_def pool_Put_def newWriterPool_def
  NewWriterLevel_def HuffmanOnly_def BestCompression_def BestSpeed_def
  DetectContentType_sample_def supportedContentType_def HasPrefix_def


lemma first_Write_reachable:
  assumes "run dct (gzipWrap rw p) ops = Inr g" and "\<not> wroteHeader g"
    and "NewWriterLevel (level (pool g)) = Inr ()"
  shows "\<exists>g'. Write dct g b = Inr g' \<and> wroteHeader g'
      \<and> Header_Get (header (w g')) hdrContentType =
          (if Header_Get (header (w g)) hdrContentType = [] then dct b
           else Header_Get (header (w g)) hdrContentType)
      \<and> (skip g' \<longleftrightarrow>
           skipRules (if Header_Get (header (w g)) hdrContentType = []
                      then Header_Set (header (w g)) hdrContentType (dct b)
                      else header (w g)))
      \<and> (z g' \<noteq> None \<longleftrightarrow> \<not> skip g')
      \<and> calls (w g') = calls (w g) @
          (if Header_Get (header (w g)) hdrContentType = []
           then [HeaderSet hdrContentType (dct b)] else []) @
          (case z g' of
             None \<Rightarrow> [WriteHeaderCall 200, WriteCall b]
           | Some s \<Rightarrow>
               [GzReset s, HeaderSet hdrContentEncoding ''gzip'', HeaderDel hdrContentLength,
                WriteHeaderCall 200, GzWrite s b])
      \<and> (Header_Get (header (w g)) hdrContentType = [] \<and>
         Header_Get (header (w g)) hdrContentRange = [] \<and>
         Header_Get (header (w g)) hdrContentEncoding = [] \<and>
         Header_Get (header (w g)) hdrContentLength = [] \<longrightarrow>
           (z g' \<noteq> None \<longleftrightarrow> dct b = [] \<or> supportedContentType (dct b)))"
proof -
  let ?hs = "header (w g)"
  let ?hs1 = "if Header_Get ?hs hdrContentType = []
              then Header_Set ?hs hdrContentType (dct b) else ?hs"
  have i: "Inv (skip g) (z g) (wroteHeader g) (since rw g)"
    using assms(1) by (rule run_reachable_Inv)
  then have u: "\<not> skip g" "z g = None" using assms(2) by (simp_all add: Inv_def)
  have h1: "header (w (sniffed dct g b)) = ?hs1" by (simp add: sniffed_def)
  have c1: "calls (w (sniffed dct g b)) = calls (w g) @
      (if Header_Get ?hs hdrContentType = [] then [HeaderSet hdrContentType (dct b)] else [])"
    by (simp add: sniffed_def)
  have ct: "Header_Get ?hs1 hdrContentType =
      (if Header_Get ?hs hdrContentType = [] then dct b else Header_Get ?hs hdrContentType)"
    by (simp add: Header_Get_other)
  obtain g' where g': "Write dct g b = Inr g'" "wroteHeader g'"
    "Header_Get (header (w g')) hdrContentType = Header_Get ?hs1 hdrContentType"
    "skip g' \<longleftrightarrow> skipRules ?hs1" "z g' \<noteq> None \<longleftrightarrow> \<not> skipRules ?hs1"
    "calls (w g') = calls (w (sniffed dct g b)) @
          (case z g' of
             None \<Rightarrow> [WriteHeaderCall 200, WriteCall b]
           | Some s \<Rightarrow> GzReset s # mutations @ [WriteHeaderCall 200, GzWrite s b])"
    using first_Write [OF assms(2) u assms(3), of dct b] unfolding h1 by blast
  have last: "z g' \<noteq> None \<longleftrightarrow> dct b = [] \<or> supportedContentType (dct b)"
    if e: "Header_Get ?hs hdrContentType = []" "Header_Get ?hs hdrContentRange = []"
      "Header_Get ?hs hdrContentEncoding = []" "Header_Get ?hs hdrContentLength = []"
  proof -
    have "skipRules ?hs1 \<longleftrightarrow> dct b \<noteq> [] \<and> \<not> supportedContentType (dct b)"
      using e hdr_distinct by (auto simp: skipRules_def Header_Get_other)
    then show ?thesis using g'(5) by simp
  qed
  have "calls (w g') = calls (w g) @
          (if Header_Get ?hs hdrContentType = [] then [HeaderSet hdrContentType (dct b)] else []) @
          (case z g' of
             None \<Rightarrow> [WriteHeaderCall 200, WriteCall b]
           | Some s \<Rightarrow>
               [GzReset s, HeaderSet hdrContentEncoding ''gzip'', HeaderDel hdrContentLength,
                WriteHeaderCall 200, GzWrite s b])"
    using g'(6) c1 by (simp add: mutations_def split: option.splits)
  with g' ct last show ?thesis by auto
qed

lemma ServeHTTP_Vary:
  assumes "ServeHTTP pf dct hnd rw r = Inr (rw', p')"
  shows "(\<exists>es. calls rw' = calls rw @ HeaderAdd ''Vary'' ''Accept-Encoding'' # es)
       \<and> ((\<forall>x\<in>set (h hnd r). keepsVary x) \<longrightarrow>
            header rw' ''Vary'' =
              Some ((case header rw ''Vary'' of None \<Rightarrow> [] | Some vs \<Rightarrow> vs) @
                    [''Accept-Encoding'']))
       \<and> (\<not> acceptsGzip pf r \<longrightarrow>
            rw' = runRaw (rw\<lparr>header := Header_Add (header rw) ''Vary'' ''Accept-Encoding'',
                             calls := calls rw @ [HeaderAdd ''Vary'' ''Accept-Encoding'']\<rparr>)
                    (h hnd r))"
proof -
  let ?rw1 = "rw\<lparr>header := Header_Add (header rw) ''Vary'' hdrAcceptEncoding,
                  calls := calls rw @ [HeaderAdd ''Vary'' hdrAcceptEncoding]\<rparr>"
  have v1: "header ?rw1 ''Vary'' =
      Some ((case header rw ''Vary'' of None \<Rightarrow> [] | Some vs \<Rightarrow> vs) @ [''Accept-Encoding''])"
    by (simp add: Header_Add_def hdrAcceptEncoding_def)
  have c1: "calls ?rw1 = calls rw @ [HeaderAdd ''Vary'' ''Accept-Encoding'']"
    by (simp add: hdrAcceptEncoding_def)
  have "(\<exists>es. calls rw' = calls ?rw1 @ es) \<and>
        ((\<forall>x\<in>set (h hnd r). keepsVary x) \<longrightarrow> header rw' ''Vary'' = header ?rw1 ''Vary'') \<and>
        (\<not> acceptsGzip pf r \<longrightarrow> rw' = runRaw ?rw1 (h hnd r))"
  proof (cases "acceptsGzip pf r")
    case False
    then have "rw' = runRaw ?rw1 (h hnd r)"
      using assms by (simp add: ServeHTTP_def Let_def)
    then show ?thesis using runRaw_frame [of ?rw1 "h hnd r"] False by blast
  next
    case True
    then obtain g where g: "run dct (gzipWrap ?rw1 (writerPool hnd)) (h hnd r) = Inr g"
      "rw' = w (Close g)"
      using assms by (auto simp: ServeHTTP_def Let_def split: sum.splits)
    obtain es1 where e1: "calls (w g) = calls ?rw1 @ es1"
      using run_frame [OF g(1)] by (auto simp: gzipWrap_def)
    obtain es2 where e2: "calls (w (Close g)) = calls (w g) @ es2"
      using Close_frame(3) by blast
    have "calls rw' = calls ?rw1 @ (es1 @ es2)" using e1 e2 g(2) by simp
    then have "\<exists>es. calls rw' = calls ?rw1 @ es" ..
    moreover have "(\<forall>x\<in>set (h hnd r). keepsVary x) \<longrightarrow> header rw' ''Vary'' = header ?rw1 ''Vary''"
      using run_frame [OF g(1)] g(2) by (simp add: Close_frame gzipWrap_def)
    ultimately show ?thesis using True by blast
  qed
  then show ?thesis unfolding v1 c1 by (simp add: hdrAcceptEncoding_def)
qed

text \<open>Handlers keep pool and gzip writer in order.\<close>

lemma pool_Get_OK:
  assumes "pool_Get p = Inr (s, p')" and "poolOK p None"
  shows "poolOK p' (Some s)"
proof (cases "idle p")
  case Nil
  then show ?thesis using assms
    by (auto simp: pool_Get_def poolOK_def split: sum.splits)
next
  case (Cons x xs)
  then show ?thesis using assms
    by (auto simp: pool_Get_def poolOK_def)
qed

lemma WriteHeader_poolOK:
  assumes "WriteHeader g code = Inr g'" and "poolOK (pool g) (z g)"
  shows "poolOK (pool g') (z g')"
  using assms(1)
proof (cases rule: WriteHeader_casesE)
  case same
  then show ?thesis using assms(2) by simp
next
  case skipped
  then show ?thesis using assms(2) by simp
next
  case (compress s p)
  then show ?thesis using assms(2) pool_Get_OK [of "pool g" s p] by simp
qed

lemma Write_poolOK:
  assumes "Write dct g b = Inr g'" and "poolOK (pool g) (z g)"
  shows "poolOK (pool g') (z g')"
proof (cases "wroteHeader g")
  case True
  then show ?thesis using assms by (auto simp: Write_after_header)
next
  case False
  from assms(1) False obtain g1 where g1: "WriteHeader (sniffed dct g b) StatusOK = Inr g1"
    "Write dct g1 b = Inr g'"
    by (cases "WriteHeader (sniffed dct g b) StatusOK") (simp_all add: Write_unfold)
  have "poolOK (pool (sniffed dct g b)) (z (sniffed dct g b))"
    using assms(2) by (simp add: sniffed_frame)
  then have "poolOK (pool g1) (z g1)" using g1(1) by (rule WriteHeader_poolOK [rotated])
  moreover have "wroteHeader g1" using g1(1) by (rule WriteHeader_wrote)
  ultimately show ?thesis using g1(2) by (auto simp: Write_after_header)
qed

lemma step_poolOK:
  assumes "step dct g x = Inr g'" and "poolOK (pool g) (z g)"
  shows "poolOK (pool g') (z g')"
proof (cases x)
  case (DoHeader f)
  then show ?thesis using assms by auto
next
  case (DoWriteHeader code)
  then show ?thesis using assms WriteHeader_poolOK by simp
next
  case (DoWrite b)
  then show ?thesis using assms Write_poolOK by simp
next
  case DoFlush
  then show ?thesis using assms by (auto simp: Flush_def)
qed

lemma run_poolOK:
  assumes "run dct g xs = Inr g'" and "poolOK (pool g) (z g)"
  shows "poolOK (pool g') (z g')"
  using assms
proof (induction xs arbitrary: g)
  case Nil
  then show ?case by simp
next
  case (Cons x xs)
  from Cons.prems(1) obtain g1 where g1: "step dct g x = Inr g1" "run dct g1 xs = Inr g'"
    by (cases "step dct g x") simp_all
  have "poolOK (pool g1) (z g1)" using g1(1) Cons.prems(2) by (rule step_poolOK)
  then show ?case using Cons.IH [OF g1(2)] by simp
qed

lemma Close_poolOK:
  assumes "poolOK (pool g) (z g)"
  shows "poolOK (pool (Close g)) None"
  using assms by (cases "z g") (auto simp: Close_def pool_Put_def poolOK_def)

section \<open>Claims\<close>

text \<open>
  C1. For every Accept-Encoding string, the first comma-separated entry whose token (the
  part before the first semicolon, trimmed) is \<open>gzip\<close> decides the result, whatever
  the entries \<open>post\<close> after it are: with no parameter the result is accept; with a
  parameter \<open>q=\<close> followed by a text that \<^verbatim>\<open>ParseFloat\<close> parses to \<open>q\<close>, accept
  exactly when \<open>q > 0\<close>; with a parameter that \<^verbatim>\<open>ParseFloat\<close> refuses, or that does
  not start with \<open>q=\<close>, reject. A string without the substring \<open>gzip\<close>, or with no
  entry whose token is \<open>gzip\<close>, is rejected. The examples of the specification follow,
  the three that reach \<^verbatim>\<open>ParseFloat\<close> for what it returns on \<open>"1.0"\<close>, \<open>"0.0"\<close>
  and \<open>"X"\<close>.
\<close>

theorem allowsGzip_first_gzip_entry:
  "(Split hdr CHR '','' = pre @ e # post \<and> (\<forall>x\<in>set pre. token x \<noteq> ''gzip'') \<and>
      token e = ''gzip'' \<longrightarrow>
        (param e = None \<longrightarrow> allowsGzip pf hdr) \<and>
        (\<forall>qv q. param e = Some (''q='' @ qv) \<and> pf qv = Some q \<longrightarrow>
           (allowsGzip pf hdr \<longleftrightarrow> gtZero q)) \<and>
        (\<forall>qv. param e = Some (''q='' @ qv) \<and> pf qv = None \<longrightarrow> \<not> allowsGzip pf hdr) \<and>
        (\<forall>p. param e = Some p \<and> \<not> prefix ''q='' p \<longrightarrow> \<not> allowsGzip pf hdr))
   \<and> (\<not> Contains hdr ''gzip'' \<longrightarrow> \<not> allowsGzip pf hdr)
   \<and> ((\<forall>x\<in>set (Split hdr CHR '',''). token x \<noteq> ''gzip'') \<longrightarrow> \<not> allowsGzip pf hdr)
   \<and> allowsGzip pf ''compress, gzip''
   \<and> \<not> allowsGzip pf []
   \<and> \<not> allowsGzip pf ''*''
   \<and> (pf ''1.0'' = Some (Finite 1) \<longrightarrow> allowsGzip pf ''compress;q=0.5, gzip;q=1.0'')
   \<and> (pf ''1.0'' = Some (Finite 1) \<longrightarrow>
        allowsGzip pf ''gzip;q=1.0, identity;q=0.5, *;q=0'')
   \<and> (pf ''0.0'' = Some (Finite 0) \<longrightarrow> \<not> allowsGzip pf ''gzip;q=0.0, *;q=0'')
   \<and> \<not> allowsGzip pf ''gzip;BAD''
   \<and> (pf ''X'' = None \<longrightarrow> \<not> allowsGzip pf ''gzip;q=X'')"
proof -
  have first: "Split hdr CHR '','' = pre @ e # post \<and> (\<forall>x\<in>set pre. token x \<noteq> ''gzip'') \<and>
      token e = ''gzip'' \<longrightarrow>
        (param e = None \<longrightarrow> allowsGzip pf hdr) \<and>
        (\<forall>qv q. param e = Some (''q='' @ qv) \<and> pf qv = Some q \<longrightarrow>
           (allowsGzip pf hdr \<longleftrightarrow> gtZero q)) \<and>
        (\<forall>qv. param e = Some (''q='' @ qv) \<and> pf qv = None \<longrightarrow> \<not> allowsGzip pf hdr) \<and>
        (\<forall>p. param e = Some p \<and> \<not> prefix ''q='' p \<longrightarrow> \<not> allowsGzip pf hdr)"
  proof (intro impI)
    assume h: "Split hdr CHR '','' = pre @ e # post \<and> (\<forall>x\<in>set pre. token x \<noteq> ''gzip'') \<and>
      token e = ''gzip''"
    then have v: "allowsGzip pf hdr = verdict pf e"
      using allowsGzip_first [of hdr pre e post pf] by blast
    show "(param e = None \<longrightarrow> allowsGzip pf hdr) \<and>
        (\<forall>qv q. param e = Some (''q='' @ qv) \<and> pf qv = Some q \<longrightarrow>
           (allowsGzip pf hdr \<longleftrightarrow> gtZero q)) \<and>
        (\<forall>qv. param e = Some (''q='' @ qv) \<and> pf qv = None \<longrightarrow> \<not> allowsGzip pf hdr) \<and>
        (\<forall>p. param e = Some p \<and> \<not> prefix ''q='' p \<longrightarrow> \<not> allowsGzip pf hdr)"
      unfolding v verdict_def by auto
  qed
  have nosub: "\<not> Contains hdr ''gzip'' \<longrightarrow> \<not> allowsGzip pf hdr"
    by (simp add: allowsGzip_def)
  have notok: "(\<forall>x\<in>set (Split hdr CHR '',''). token x \<noteq> ''gzip'') \<longrightarrow> \<not> allowsGzip pf hdr"
    using allowsGzip_none [of hdr pf] by blast
  show ?thesis
    using first nosub notok allowsGzip_examples_plain [of pf] allowsGzip_examples_one [of pf]
      allowsGzip_examples_zero [of pf] allowsGzip_examples_bad [of pf]
    by blast
qed

text \<open>
  The theorem at concrete headers, with \<open>ParseFloat_sample\<close> for the parser: a second
  \<open>gzip\<close> entry with quality 0 after an accepting one changes nothing, and an accepting
  entry after a rejecting one neither.
\<close>

theorem allowsGzip_first_gzip_entry_witness:
  "allowsGzip ParseFloat_sample ''compress;q=0.5, gzip;q=1.0,gzip;q=0.0''
   \<and> allowsGzip ParseFloat_sample ''identity, gzip , gzip;q=0.0''
   \<and> \<not> allowsGzip ParseFloat_sample ''gzip;q=0.0, gzip''
   \<and> \<not> allowsGzip ParseFloat_sample ''gzip; q=X ,gzip''
   \<and> \<not> allowsGzip ParseFloat_sample ''gzip;level=9, gzip''
   \<and> \<not> allowsGzip ParseFloat_sample ''identity, deflate''
   \<and> \<not> allowsGzip ParseFloat_sample ''fgzip, gzip2;q=1.0''
   \<and> allowsGzip ParseFloat_sample ''gzip;q=1.0, identity;q=0.5, *;q=0''
   \<and> \<not> allowsGzip ParseFloat_sample ''gzip;q=0.0, *;q=0''
   \<and> \<not> allowsGzip ParseFloat_sample ''gzip;q=X''"
proof -
  have pf: "ParseFloat_sample ''1.0'' = Some (Finite 1)"
    "ParseFloat_sample ''0.0'' = Some (Finite 0)" "ParseFloat_sample ''X'' = None"
    by (simp_all add: ParseFloat_sample_def)
  have s1: "Split ''compress;q=0.5, gzip;q=1.0,gzip;q=0.0'' CHR '','' =
      [''compress;q=0.5''] @ '' gzip;q=1.0'' # [''gzip;q=0.0'']"
    and t1: "\<forall>x\<in>set [''compress;q=0.5'']. token x \<noteq> ''gzip''"
      "token '' gzip;q=1.0'' = ''gzip''"
      "param '' gzip;q=1.0'' = Some (''q='' @ ''1.0'')"
    by code_simp+
  have s2: "Split ''identity, gzip , gzip;q=0.0'' CHR '','' =
      [''identity''] @ '' gzip '' # ['' gzip;q=0.0'']"
    and t2: "\<forall>x\<in>set [''identity'']. token x \<noteq> ''gzip''" "token '' gzip '' = ''gzip''"
      "param '' gzip '' = None"
    by code_simp+
  have s3: "Split ''gzip;q=0.0, gzip'' CHR '','' = [] @ ''gzip;q=0.0'' # ['' gzip'']"
    and t3: "\<forall>x\<in>set ([] :: string list). token x \<noteq> ''gzip''"
      "token ''gzip;q=0.0'' = ''gzip''"
      "param ''gzip;q=0.0'' = Some (''q='' @ ''0.0'')"
    by code_simp+
  have s4: "Split ''gzip; q=X ,gzip'' CHR '','' = [] @ ''gzip; q=X '' # [''gzip'']"
    and t4: "token ''gzip; q=X '' = ''gzip''" "param ''gzip; q=X '' = Some (''q='' @ ''X'')"
    by code_simp+
  have s5: "Split ''gzip;level=9, gzip'' CHR '','' = [] @ ''gzip;level=9'' # ['' gzip'']"
    and t5: "token ''gzip;level=9'' = ''gzip''" "param ''gzip;level=9'' = Some ''level=9''"
      "\<not> prefix ''q='' ''level=9''"
    by code_simp+
  have s6: "\<not> Contains ''identity, deflate'' ''gzip''"
    by code_simp
  have s7: "\<forall>x\<in>set (Split ''fgzip, gzip2;q=1.0'' CHR '',''). token x \<noteq> ''gzip''"
    by code_simp
  have w1: "allowsGzip ParseFloat_sample ''compress;q=0.5, gzip;q=1.0,gzip;q=0.0''"
    using allowsGzip_first_gzip_entry [of "''compress;q=0.5, gzip;q=1.0,gzip;q=0.0''"
        "[''compress;q=0.5'']" "'' gzip;q=1.0''" "[''gzip;q=0.0'']" ParseFloat_sample]
      s1 t1 pf(1) by (metis gtZero.simps(1) zero_less_one)
  have w2: "allowsGzip ParseFloat_sample ''identity, gzip , gzip;q=0.0''"
    using allowsGzip_first_gzip_entry [of "''identity, gzip , gzip;q=0.0''"
        "[''identity'']" "'' gzip ''" "['' gzip;q=0.0'']" ParseFloat_sample]
      s2 t2 by blast
  have w3: "\<not> allowsGzip ParseFloat_sample ''gzip;q=0.0, gzip''"
    using allowsGzip_first_gzip_entry [of "''gzip;q=0.0, gzip''"
        "[]" "''gzip;q=0.0''" "['' gzip'']" ParseFloat_sample]
      s3 t3 pf(2) by (metis gtZero.simps(1) less_irrefl)
  have w4: "\<not> allowsGzip ParseFloat_sample ''gzip; q=X ,gzip''"
    using allowsGzip_first_gzip_entry [of "''gzip; q=X ,gzip''"
        "[]" "''gzip; q=X ''" "[''gzip'']" ParseFloat_sample]
      s4 t3(1) t4 pf(3) by blast
  have w5: "\<not> allowsGzip ParseFloat_sample ''gzip;level=9, gzip''"
    using allowsGzip_first_gzip_entry [of "''gzip;level=9, gzip''"
        "[]" "''gzip;level=9''" "['' gzip'']" ParseFloat_sample]
      s5 t3(1) t5 by blast
  have w6: "\<not> allowsGzip ParseFloat_sample ''identity, deflate''"
    using allowsGzip_first_gzip_entry [of "''identity, deflate''" _ _ _ ParseFloat_sample] s6
    by blast
  have w7: "\<not> allowsGzip ParseFloat_sample ''fgzip, gzip2;q=1.0''"
    using allowsGzip_first_gzip_entry [of "''fgzip, gzip2;q=1.0''" _ _ _ ParseFloat_sample] s7
    by blast
  have w8: "allowsGzip ParseFloat_sample ''gzip;q=1.0, identity;q=0.5, *;q=0''"
    "\<not> allowsGzip ParseFloat_sample ''gzip;q=0.0, *;q=0''"
    "\<not> allowsGzip ParseFloat_sample ''gzip;q=X''"
    using allowsGzip_first_gzip_entry [of _ _ _ _ ParseFloat_sample] pf by blast+
  from w1 w2 w3 w4 w5 w6 w7 w8 show ?thesis by blast
qed

text \<open>
  C2. The skip predicate of \<open>init\<close>. A header is present when \<^verbatim>\<open>Get\<close> returns a
  value that is not empty, which is what the code tests (rule 4 of the claim calls an empty
  Content-Type undeclared in the same way). Once a decision is made (\<open>skip\<close> set, or a gzip
  writer held), \<open>init\<close> returns the state as it is and looks at no header. On an undecided
  state the rules apply in this order, each one under the failure of the rules before it: a
  Content-Range, a Content-Encoding, a Content-Length that \<^verbatim>\<open>Atoi\<close> parses to a number
  below 1000, a Content-Type outside the supported set, each sets \<open>skip\<close> and changes
  nothing else; otherwise, with no Content-Length or one that is not below 1000, and with
  no Content-Type or a supported one, \<open>init\<close> takes a gzip writer (the pool's level being
  legal), sets Content-Encoding to \<open>gzip\<close> and removes Content-Length. Every state that
  \<open>init\<close> returns is decided, so a second \<open>init\<close> on it evaluates nothing.
\<close>

theorem init_skip_predicate:
  "(skip g \<or> z g \<noteq> None \<longrightarrow> init g = Inr g)
   \<and> (\<not> skip g \<and> z g = None \<longrightarrow>
        (Header_Get (header (w g)) hdrContentRange \<noteq> [] \<longrightarrow> init g = Inr (g\<lparr>skip := True\<rparr>))
      \<and> (Header_Get (header (w g)) hdrContentRange = [] \<and>
         Header_Get (header (w g)) hdrContentEncoding \<noteq> [] \<longrightarrow> init g = Inr (g\<lparr>skip := True\<rparr>))
      \<and> (Header_Get (header (w g)) hdrContentRange = [] \<and>
         Header_Get (header (w g)) hdrContentEncoding = [] \<and>
         (\<exists>n. Atoi (Header_Get (header (w g)) hdrContentLength) = Some n \<and> n < 1000) \<longrightarrow>
           init g = Inr (g\<lparr>skip := True\<rparr>))
      \<and> (Header_Get (header (w g)) hdrContentRange = [] \<and>
         Header_Get (header (w g)) hdrContentEncoding = [] \<and>
         \<not> (\<exists>n. Atoi (Header_Get (header (w g)) hdrContentLength) = Some n \<and> n < 1000) \<and>
         Header_Get (header (w g)) hdrContentType \<noteq> [] \<and>
         \<not> supportedContentType (Header_Get (header (w g)) hdrContentType) \<longrightarrow>
           init g = Inr (g\<lparr>skip := True\<rparr>))
      \<and> (Header_Get (header (w g)) hdrContentRange = [] \<and>
         Header_Get (header (w g)) hdrContentEncoding = [] \<and>
         (Header_Get (header (w g)) hdrContentLength = [] \<or>
          \<not> (\<exists>n. Atoi (Header_Get (header (w g)) hdrContentLength) = Some n \<and> n < 1000)) \<and>
         (Header_Get (header (w g)) hdrContentType = [] \<or>
          supportedContentType (Header_Get (header (w g)) hdrContentType)) \<and>
         NewWriterLevel (level (pool g)) = Inr () \<longrightarrow>
           (\<exists>g'. init g = Inr g' \<and> \<not> skip g' \<and> z g' \<noteq> None \<and>
              Header_Get (header (w g')) hdrContentEncoding = ''gzip'' \<and>
              header (w g') hdrContentLength = None)))
   \<and> (\<forall>g'. init g = Inr g' \<longrightarrow> (skip g' \<or> z g' \<noteq> None) \<and> init g' = Inr g')"
proof -
  let ?hs = "header (w g)"
  have decided: "skip g \<or> z g \<noteq> None \<longrightarrow> init g = Inr g"
    using init_decided by blast
  have rules: "\<not> skip g \<and> z g = None \<longrightarrow> skipRules ?hs \<longrightarrow> init g = Inr (g\<lparr>skip := True\<rparr>)"
    using init_skip by blast
  have compress: "\<exists>g'. init g = Inr g' \<and> \<not> skip g' \<and> z g' \<noteq> None \<and>
      Header_Get (header (w g')) hdrContentEncoding = ''gzip'' \<and>
      header (w g') hdrContentLength = None"
    if u: "\<not> skip g" "z g = None" and n: "\<not> skipRules ?hs"
      and v: "NewWriterLevel (level (pool g)) = Inr ()"
  proof -
    obtain s p where "pool_Get (pool g) = Inr (s, p)"
      using pool_Get_valid [OF v] by blast
    then have "init g = Inr (compressWith g s p)"
      using u n by (simp add: init_compress)
    moreover have "Header_Get (header (w (compressWith g s p))) hdrContentEncoding = ''gzip''"
      by (simp add: Header_Get_def Header_Del_def Header_Set_def hdrContentEncoding_def
          hdrContentLength_def)
    moreover have "header (w (compressWith g s p)) hdrContentLength = None"
      by (simp add: Header_Del_def)
    ultimately show ?thesis using u by simp
  qed
  have once: "\<forall>g'. init g = Inr g' \<longrightarrow> (skip g' \<or> z g' \<noteq> None) \<and> init g' = Inr g'"
    using init_result_decided init_decided by blast
  have noCL: "Header_Get ?hs hdrContentLength = [] \<Longrightarrow>
      \<not> (\<exists>n. Atoi (Header_Get ?hs hdrContentLength) = Some n \<and> n < 1000)"
    by simp
  show ?thesis
    using decided rules compress once noCL unfolding skipRules_iff by blast
qed

text \<open>
  The theorem at six writers: a decided one, one for each of the four skip rules, and one
  with a Content-Length of 1000, which is compressed.
\<close>

theorem init_skip_predicate_witness:
  "init ((gzipWrap (rw_sample\<lparr>header := [hdrContentRange \<mapsto> [''bytes 0-9/20'']]\<rparr>)
           (newWriterPool 1))\<lparr>skip := True\<rparr>) =
     Inr ((gzipWrap (rw_sample\<lparr>header := [hdrContentRange \<mapsto> [''bytes 0-9/20'']]\<rparr>)
           (newWriterPool 1))\<lparr>skip := True\<rparr>)
   \<and> init (gzipWrap (rw_sample\<lparr>header := [hdrContentRange \<mapsto> [''bytes 0-9/20'']]\<rparr>)
        (newWriterPool 1)) =
       Inr ((gzipWrap (rw_sample\<lparr>header := [hdrContentRange \<mapsto> [''bytes 0-9/20'']]\<rparr>)
        (newWriterPool 1))\<lparr>skip := True\<rparr>)
   \<and> init (gzipWrap (rw_sample\<lparr>header := [hdrContentEncoding \<mapsto> [''br'']]\<rparr>)
        (newWriterPool 1)) =
       Inr ((gzipWrap (rw_sample\<lparr>header := [hdrContentEncoding \<mapsto> [''br'']]\<rparr>)
        (newWriterPool 1))\<lparr>skip := True\<rparr>)
   \<and> init (gzipWrap (rw_sample\<lparr>header := [hdrContentLength \<mapsto> [''999'']]\<rparr>)
        (newWriterPool 1)) =
       Inr ((gzipWrap (rw_sample\<lparr>header := [hdrContentLength \<mapsto> [''999'']]\<rparr>)
        (newWriterPool 1))\<lparr>skip := True\<rparr>)
   \<and> init (gzipWrap (rw_sample\<lparr>header := [hdrContentType \<mapsto> [''application/octet-stream'']]\<rparr>)
        (newWriterPool 1)) =
       Inr ((gzipWrap (rw_sample\<lparr>header := [hdrContentType \<mapsto> [''application/octet-stream'']]\<rparr>)
        (newWriterPool 1))\<lparr>skip := True\<rparr>)
   \<and> (\<exists>g'. init (gzipWrap (rw_sample\<lparr>header := [hdrContentLength \<mapsto> [''1000'']]\<rparr>)
              (newWriterPool 1)) = Inr g' \<and>
          \<not> skip g' \<and> z g' \<noteq> None \<and>
          Header_Get (header (w g')) hdrContentEncoding = ''gzip'' \<and>
          header (w g') hdrContentLength = None \<and> init g' = Inr g')"
proof -
  let ?p = "newWriterPool 1"
  let ?g1 = "gzipWrap (rw_sample\<lparr>header := [hdrContentRange \<mapsto> [''bytes 0-9/20'']]\<rparr>) ?p"
  let ?g2 = "gzipWrap (rw_sample\<lparr>header := [hdrContentEncoding \<mapsto> [''br'']]\<rparr>) ?p"
  let ?g3 = "gzipWrap (rw_sample\<lparr>header := [hdrContentLength \<mapsto> [''999'']]\<rparr>) ?p"
  let ?g4 = "gzipWrap (rw_sample\<lparr>header := [hdrContentType \<mapsto> [''application/octet-stream'']]\<rparr>) ?p"
  let ?g5 = "gzipWrap (rw_sample\<lparr>header := [hdrContentLength \<mapsto> [''1000'']]\<rparr>) ?p"
  have u: "\<not> skip ?g1 \<and> z ?g1 = None" "\<not> skip ?g2 \<and> z ?g2 = None" "\<not> skip ?g3 \<and> z ?g3 = None"
    "\<not> skip ?g4 \<and> z ?g4 = None" "\<not> skip ?g5 \<and> z ?g5 = None"
    by (simp_all add: gzipWrap_def)
  have a0: "init (?g1\<lparr>skip := True\<rparr>) = Inr (?g1\<lparr>skip := True\<rparr>)"
    using init_skip_predicate [of "?g1\<lparr>skip := True\<rparr>"] by simp
  have h1: "Header_Get (header (w ?g1)) hdrContentRange \<noteq> []"
    by (simp add: gzipWrap_def rw_sample_def header_eval)
  have a1: "init ?g1 = Inr (?g1\<lparr>skip := True\<rparr>)"
    using init_skip_predicate [of ?g1] u(1) h1 by blast
  have h2: "Header_Get (header (w ?g2)) hdrContentRange = [] \<and>
      Header_Get (header (w ?g2)) hdrContentEncoding \<noteq> []"
    by (simp add: gzipWrap_def rw_sample_def header_eval)
  have a2: "init ?g2 = Inr (?g2\<lparr>skip := True\<rparr>)"
    using init_skip_predicate [of ?g2] u(2) h2 by blast
  have h3: "Header_Get (header (w ?g3)) hdrContentRange = [] \<and>
      Header_Get (header (w ?g3)) hdrContentEncoding = [] \<and>
      (\<exists>n. Atoi (Header_Get (header (w ?g3)) hdrContentLength) = Some n \<and> n < 1000)"
    by (simp add: gzipWrap_def rw_sample_def header_eval Atoi_samples)
  have a3: "init ?g3 = Inr (?g3\<lparr>skip := True\<rparr>)"
    using init_skip_predicate [of ?g3] u(3) h3 by blast
  have h4: "Header_Get (header (w ?g4)) hdrContentRange = [] \<and>
      Header_Get (header (w ?g4)) hdrContentEncoding = [] \<and>
      \<not> (\<exists>n. Atoi (Header_Get (header (w ?g4)) hdrContentLength) = Some n \<and> n < 1000) \<and>
      Header_Get (header (w ?g4)) hdrContentType \<noteq> [] \<and>
      \<not> supportedContentType (Header_Get (header (w ?g4)) hdrContentType)"
    by (simp add: gzipWrap_def rw_sample_def header_eval supportedContentType_def HasPrefix_def)
  have a4: "init ?g4 = Inr (?g4\<lparr>skip := True\<rparr>)"
    using init_skip_predicate [of ?g4] u(4) h4 by blast
  have h5: "Header_Get (header (w ?g5)) hdrContentRange = [] \<and>
      Header_Get (header (w ?g5)) hdrContentEncoding = [] \<and>
      (Header_Get (header (w ?g5)) hdrContentLength = [] \<or>
       \<not> (\<exists>n. Atoi (Header_Get (header (w ?g5)) hdrContentLength) = Some n \<and> n < 1000)) \<and>
      (Header_Get (header (w ?g5)) hdrContentType = [] \<or>
       supportedContentType (Header_Get (header (w ?g5)) hdrContentType)) \<and>
      NewWriterLevel (level (pool ?g5)) = Inr ()"
    by (simp add: gzipWrap_def rw_sample_def header_eval Atoi_samples newWriterPool_def
        NewWriterLevel_iff)
  have "\<exists>g'. init ?g5 = Inr g' \<and> \<not> skip g' \<and> z g' \<noteq> None \<and>
          Header_Get (header (w g')) hdrContentEncoding = ''gzip'' \<and>
          header (w g') hdrContentLength = None"
    using init_skip_predicate [of ?g5] u(5) h5 by blast
  then obtain g' where g': "init ?g5 = Inr g'" "\<not> skip g'" "z g' \<noteq> None"
    "Header_Get (header (w g')) hdrContentEncoding = ''gzip''"
    "header (w g') hdrContentLength = None"
    by blast
  have "init g' = Inr g'"
    using init_skip_predicate [of ?g5] g'(1) by blast
  with g' have a5: "\<exists>g'. init ?g5 = Inr g' \<and> \<not> skip g' \<and> z g' \<noteq> None \<and>
          Header_Get (header (w g')) hdrContentEncoding = ''gzip'' \<and>
          header (w g') hdrContentLength = None \<and> init g' = Inr g'"
    by blast
  from a0 a1 a2 a3 a4 a5 show ?thesis by blast
qed







text \<open>
  C5. A write on a writer that a handler run has reached without committing a status
  code (the pool's level being legal) returns and leaves \<open>wroteHeader\<close> set. The real
  writer receives, in this order: the setting of Content-Type to the sniffed type, if
  \<^verbatim>\<open>Get\<close> gave no Content-Type (an empty value counts as none, as in the code); the
  mutations of the decision, if it is to compress; the commit of 200; the body bytes. The
  Content-Type afterwards is the sniffed one if there was none and the handler's own
  otherwise. The decision is the one of the skip rules on the header map with the sniffed
  type in it: with no Content-Type, Content-Range, Content-Encoding and Content-Length
  the response is compressed exactly when the sniffed type is supported (or empty). A
  write after the commit changes no header.
\<close>

theorem Write_implicit_commit_and_sniff:
  "(run dct (gzipWrap rw p) ops = Inr g \<and> \<not> wroteHeader g \<and>
    NewWriterLevel (level (pool g)) = Inr () \<longrightarrow>
      (\<exists>g'. Write dct g b = Inr g' \<and> wroteHeader g'
      \<and> Header_Get (header (w g')) hdrContentType =
          (if Header_Get (header (w g)) hdrContentType = [] then dct b
           else Header_Get (header (w g)) hdrContentType)
      \<and> (skip g' \<longleftrightarrow>
           skipRules (if Header_Get (header (w g)) hdrContentType = []
                      then Header_Set (header (w g)) hdrContentType (dct b)
                      else header (w g)))
      \<and> (z g' \<noteq> None \<longleftrightarrow> \<not> skip g')
      \<and> calls (w g') = calls (w g) @
          (if Header_Get (header (w g)) hdrContentType = []
           then [HeaderSet hdrContentType (dct b)] else []) @
          (case z g' of
             None \<Rightarrow> [WriteHeaderCall 200, WriteCall b]
           | Some s \<Rightarrow>
               [GzReset s, HeaderSet hdrContentEncoding ''gzip'', HeaderDel hdrContentLength,
                WriteHeaderCall 200, GzWrite s b])
      \<and> (Header_Get (header (w g)) hdrContentType = [] \<and>
         Header_Get (header (w g)) hdrContentRange = [] \<and>
         Header_Get (header (w g)) hdrContentEncoding = [] \<and>
         Header_Get (header (w g)) hdrContentLength = [] \<longrightarrow>
           (z g' \<noteq> None \<longleftrightarrow> dct b = [] \<or> supportedContentType (dct b)))))
   \<and> (wroteHeader g \<longrightarrow>
        (\<exists>g'. Write dct g b = Inr g' \<and> header (w g') = header (w g)))"
proof -
  have later: "wroteHeader g \<longrightarrow> (\<exists>g'. Write dct g b = Inr g' \<and> header (w g') = header (w g))"
    by (simp add: Write_after_header)
  show ?thesis
    using first_Write_reachable [of dct rw p ops g b] later by blast
qed

text \<open>
  The theorem at a first write with no Content-Type (sniffed as plain text, compressed)
  and at a first write after the handler has set \<open>image/png\<close> (kept, skipped).
\<close>

theorem Write_implicit_commit_and_sniff_witness:
  "(\<exists>g'. Write DetectContentType_sample (gzipWrap rw_sample (newWriterPool 1)) ''Hello'' = Inr g'
      \<and> wroteHeader g'
      \<and> Header_Get (header (w g')) hdrContentType = ''text/plain; charset=utf-8''
      \<and> z g' = Some 0
      \<and> calls (w g') =
          [HeaderSet hdrContentType ''text/plain; charset=utf-8'', GzReset 0,
           HeaderSet hdrContentEncoding ''gzip'', HeaderDel hdrContentLength,
           WriteHeaderCall 200, GzWrite 0 ''Hello''])
   \<and> (\<exists>g g'.
        run DetectContentType_sample (gzipWrap rw_sample (newWriterPool 1))
          [DoHeader (\<lambda>hs. Header_Set hs hdrContentType ''image/png'')] = Inr g
      \<and> Write DetectContentType_sample g ''Hello'' = Inr g'
      \<and> Header_Get (header (w g')) hdrContentType = ''image/png''
      \<and> skip g' \<and> z g' = None
      \<and> calls (w g') = [WriteHeaderCall 200, WriteCall ''Hello''])"
proof -
  let ?g = "gzipWrap rw_sample (newWriterPool 1)"
  have r0: "run DetectContentType_sample ?g [] = Inr ?g" by simp
  have n0: "\<not> wroteHeader ?g" "NewWriterLevel (level (pool ?g)) = Inr ()"
    by (simp_all add: gzipWrap_def newWriterPool_def NewWriterLevel_iff)
  have h0: "Header_Get (header (w ?g)) hdrContentType = []"
    "Header_Get (header (w ?g)) hdrContentRange = []"
    "Header_Get (header (w ?g)) hdrContentEncoding = []"
    "Header_Get (header (w ?g)) hdrContentLength = []" "calls (w ?g) = []"
    by (simp_all add: gzipWrap_def rw_sample_def Header_Get_def)
  have s0: "supportedContentType (DetectContentType_sample ''Hello'')"
    "DetectContentType_sample ''Hello'' = ''text/plain; charset=utf-8''"
    by (simp_all add: DetectContentType_sample_def supportedContentType_def HasPrefix_def)
  obtain g' where g': "Write DetectContentType_sample ?g ''Hello'' = Inr g'" "wroteHeader g'"
    "Header_Get (header (w g')) hdrContentType = ''text/plain; charset=utf-8''"
    "z g' \<noteq> None"
    "calls (w g') = [HeaderSet hdrContentType ''text/plain; charset=utf-8''] @
          (case z g' of
             None \<Rightarrow> [WriteHeaderCall 200, WriteCall ''Hello'']
           | Some s \<Rightarrow>
               [GzReset s, HeaderSet hdrContentEncoding ''gzip'', HeaderDel hdrContentLength,
                WriteHeaderCall 200, GzWrite s ''Hello''])"
    using Write_implicit_commit_and_sniff [where dct = DetectContentType_sample
        and rw = rw_sample and p = "newWriterPool 1" and ops = "[]" and g = "?g"
        and b = "''Hello''"] r0 n0 h0 s0 by auto
  have "z g' = Some 0"
    using g'(1) by (auto simp: writer_eval header_eval)
  with g' have first: "\<exists>g'. Write DetectContentType_sample ?g ''Hello'' = Inr g'
      \<and> wroteHeader g'
      \<and> Header_Get (header (w g')) hdrContentType = ''text/plain; charset=utf-8''
      \<and> z g' = Some 0
      \<and> calls (w g') =
          [HeaderSet hdrContentType ''text/plain; charset=utf-8'', GzReset 0,
           HeaderSet hdrContentEncoding ''gzip'', HeaderDel hdrContentLength,
           WriteHeaderCall 200, GzWrite 0 ''Hello'']"
    by auto
  let ?ops = "[DoHeader (\<lambda>hs. Header_Set hs hdrContentType ''image/png'')]"
  let ?b = "setHeader ?g (Header_Set (header (w ?g)) hdrContentType ''image/png'')"
  have r1: "run DetectContentType_sample ?g ?ops = Inr ?b" by simp
  have n1: "\<not> wroteHeader ?b" "NewWriterLevel (level (pool ?b)) = Inr ()"
    by (simp_all add: gzipWrap_def newWriterPool_def NewWriterLevel_iff)
  have h1: "Header_Get (header (w ?b)) hdrContentType = ''image/png''" "calls (w ?b) = []"
    "skipRules (header (w ?b))"
    by (simp_all add: gzipWrap_def rw_sample_def skipRules_def header_eval
        supportedContentType_def HasPrefix_def)
  obtain b' where b': "Write DetectContentType_sample ?b ''Hello'' = Inr b'"
    "Header_Get (header (w b')) hdrContentType = ''image/png''" "skip b'" "z b' = None"
    "calls (w b') = [WriteHeaderCall 200, WriteCall ''Hello'']"
    using Write_implicit_commit_and_sniff [where dct = DetectContentType_sample
        and rw = rw_sample and p = "newWriterPool 1" and ops = "?ops" and g = "?b"
        and b = "''Hello''"] r1 n1 h1 by auto
  with r1 have second: "\<exists>g g'. run DetectContentType_sample ?g ?ops = Inr g
      \<and> Write DetectContentType_sample g ''Hello'' = Inr g'
      \<and> Header_Get (header (w g')) hdrContentType = ''image/png''
      \<and> skip g' \<and> z g' = None
      \<and> calls (w g') = [WriteHeaderCall 200, WriteCall ''Hello'']"
    by blast
  from first second show ?thesis by blast
qed

text \<open>
  C6. \<^verbatim>\<open>Unwrap\<close> of the writer that \<^verbatim>\<open>ServeHTTP\<close> builds is the real writer, and
  after every run of a handler it still is: the same reference, with the same flush
  capability, the \<open>w\<close> of the state. With a pool of a legal level every run returns.
\<close>

theorem Unwrap_real_writer:
  "Unwrap (gzipWrap rw p) = rw
   \<and> (NewWriterLevel (level p) = Inr () \<longrightarrow> (\<exists>g. run dct (gzipWrap rw p) ops = Inr g))
   \<and> (\<forall>g. run dct (gzipWrap rw p) ops = Inr g \<longrightarrow>
        addr (Unwrap g) = addr rw \<and> flusher (Unwrap g) = flusher rw \<and> Unwrap g = w g)"
proof -
  have "Unwrap (gzipWrap rw p) = rw" by (simp add: Unwrap_def gzipWrap_def)
  moreover have "NewWriterLevel (level p) = Inr () \<longrightarrow> (\<exists>g. run dct (gzipWrap rw p) ops = Inr g)"
    using run_total [of "gzipWrap rw p" dct ops] by (auto simp: gzipWrap_def)
  moreover have "addr (Unwrap g) = addr rw \<and> flusher (Unwrap g) = flusher rw \<and> Unwrap g = w g"
    if "run dct (gzipWrap rw p) ops = Inr g" for g
    using run_frame [OF that] by (simp add: Unwrap_def gzipWrap_def)
  ultimately show ?thesis by blast
qed

text \<open>The theorem at a run that sets a Content-Length and writes.\<close>

theorem Unwrap_real_writer_witness:
  "Unwrap (gzipWrap rw_sample (newWriterPool 1)) = rw_sample
   \<and> (\<exists>g. run DetectContentType_sample (gzipWrap rw_sample (newWriterPool 1))
          [DoHeader (\<lambda>hs. Header_Set hs hdrContentLength ''2000''), DoWrite ''Hello''] = Inr g
        \<and> addr (Unwrap g) = 1 \<and> flusher (Unwrap g))"
proof -
  let ?ops = "[DoHeader (\<lambda>hs. Header_Set hs hdrContentLength ''2000''), DoWrite ''Hello'']"
  have "NewWriterLevel (level (newWriterPool 1)) = Inr ()"
    by (simp add: newWriterPool_def NewWriterLevel_iff)
  then obtain g where g:
    "run DetectContentType_sample (gzipWrap rw_sample (newWriterPool 1)) ?ops = Inr g"
    using Unwrap_real_writer [of rw_sample "newWriterPool 1" DetectContentType_sample ?ops]
    by blast
  then have "addr (Unwrap g) = addr rw_sample \<and> flusher (Unwrap g) = flusher rw_sample"
    using Unwrap_real_writer [of rw_sample "newWriterPool 1" DetectContentType_sample ?ops]
    by blast
  then have "addr (Unwrap g) = 1 \<and> flusher (Unwrap g)" by (simp add: rw_sample_def)
  with g Unwrap_real_writer [of rw_sample "newWriterPool 1"] show ?thesis by blast
qed

text \<open>
  C7. \<^verbatim>\<open>WithLevel\<close> panics for every level below -2 or above 9, the levels that
  \<^verbatim>\<open>gzip.NewWriterLevel\<close> refuses, and returns an option for every level from -2 to 9;
  the option sets the pool of the handler to a pool of that level and nothing else. A
  handler that \<^verbatim>\<open>New\<close> builds from options that \<^verbatim>\<open>WithLevel\<close> returned has a pool of
  a legal level, and with a pool of a legal level \<^verbatim>\<open>ServeHTTP\<close> returns for every
  request, handler run and writer: it does not panic, and it leaves the pool's level as
  it was, so the same holds for the next request.
\<close>

theorem WithLevel_setup_fault:
  "((lv < - 2 \<or> 9 < lv) \<longrightarrow> WithLevel lv = Inl (InvalidLevel lv))
   \<and> (- 2 \<le> lv \<and> lv \<le> 9 \<longrightarrow>
        (\<exists>opt. WithLevel lv = Inr opt \<and>
           (\<forall>g. writerPool (opt g) = newWriterPool lv \<and> h (opt g) = h g)))
   \<and> ((\<forall>opt\<in>set opts. \<exists>l. WithLevel l = Inr opt) \<longrightarrow>
        - 2 \<le> level (writerPool (New hh opts)) \<and> level (writerPool (New hh opts)) \<le> 9)
   \<and> (- 2 \<le> level (writerPool hnd) \<and> level (writerPool hnd) \<le> 9 \<longrightarrow>
        (\<exists>rw' p'. ServeHTTP pf dct hnd rw r = Inr (rw', p') \<and>
           level p' = level (writerPool hnd)))"
proof -
  have bad: "(lv < - 2 \<or> 9 < lv) \<longrightarrow> WithLevel lv = Inl (InvalidLevel lv)"
    by (auto simp: WithLevel_def NewWriterLevel_def HuffmanOnly_def BestCompression_def)
  have good: "- 2 \<le> lv \<and> lv \<le> 9 \<longrightarrow>
        (\<exists>opt. WithLevel lv = Inr opt \<and>
           (\<forall>g. writerPool (opt g) = newWriterPool lv \<and> h (opt g) = h g))"
    by (auto simp: WithLevel_def NewWriterLevel_def HuffmanOnly_def BestCompression_def)
  have new: "(\<forall>opt\<in>set opts. \<exists>l. WithLevel l = Inr opt) \<longrightarrow>
        - 2 \<le> level (writerPool (New hh opts)) \<and> level (writerPool (New hh opts)) \<le> 9"
    using New_level_valid [of opts hh] unfolding NewWriterLevel_iff by blast
  have serve: "- 2 \<le> level (writerPool hnd) \<and> level (writerPool hnd) \<le> 9 \<longrightarrow>
        (\<exists>rw' p'. ServeHTTP pf dct hnd rw r = Inr (rw', p') \<and>
           level p' = level (writerPool hnd))"
    using ServeHTTP_total [of hnd pf dct rw r] unfolding NewWriterLevel_iff by blast
  from bad good new serve show ?thesis by blast
qed

text \<open>
  The theorem at the levels next to the bounds and on them, and at a handler built with
  the option of level 9 serving a request that accepts gzip.
\<close>

theorem WithLevel_setup_fault_witness:
  "WithLevel 10 = Inl (InvalidLevel 10)
   \<and> WithLevel (- 3) = Inl (InvalidLevel (- 3))
   \<and> (\<exists>opt. WithLevel 9 = Inr opt \<and>
         (\<forall>g. writerPool (opt g) = newWriterPool 9 \<and> h (opt g) = h g))
   \<and> (\<exists>opt. WithLevel (- 2) = Inr opt \<and>
         (\<forall>g. writerPool (opt g) = newWriterPool (- 2) \<and> h (opt g) = h g))
   \<and> level (writerPool (New (\<lambda>r. [DoWrite ''Hello, world!''])
        [\<lambda>g. g\<lparr>writerPool := newWriterPool 9\<rparr>])) \<le> 9
   \<and> (\<exists>rw' p'. ServeHTTP ParseFloat_sample DetectContentType_sample
         (New (\<lambda>r. [DoWrite ''Hello, world!'']) [\<lambda>g. g\<lparr>writerPool := newWriterPool 9\<rparr>])
         rw_sample request_sample = Inr (rw', p') \<and>
         level p' = level (writerPool (New (\<lambda>r. [DoWrite ''Hello, world!''])
           [\<lambda>g. g\<lparr>writerPool := newWriterPool 9\<rparr>])))"
proof -
  let ?opt = "\<lambda>g :: gzipHandler. g\<lparr>writerPool := newWriterPool 9\<rparr>"
  let ?hnd = "New (\<lambda>r. [DoWrite ''Hello, world!'']) [?opt]"
  have "WithLevel 9 = Inr ?opt"
    by (simp add: WithLevel_def NewWriterLevel_def HuffmanOnly_def BestCompression_def)
  then have o: "\<forall>opt\<in>set [?opt]. \<exists>l. WithLevel l = Inr opt"
    by auto
  have lv: "- 2 \<le> level (writerPool ?hnd) \<and> level (writerPool ?hnd) \<le> 9"
    using WithLevel_setup_fault [of _ "[?opt]" "\<lambda>r. [DoWrite ''Hello, world!'']"] o by blast
  have sv: "\<exists>rw' p'. ServeHTTP ParseFloat_sample DetectContentType_sample ?hnd rw_sample
      request_sample = Inr (rw', p') \<and> level p' = level (writerPool ?hnd)"
    using WithLevel_setup_fault [of _ _ _ ?hnd ParseFloat_sample DetectContentType_sample
        rw_sample request_sample] lv by blast
  have b1: "WithLevel 10 = Inl (InvalidLevel 10)"
    using WithLevel_setup_fault [of 10] by simp
  have b2: "WithLevel (- 3) = Inl (InvalidLevel (- 3))"
    using WithLevel_setup_fault [of "- 3"] by simp
  have g1: "\<exists>opt. WithLevel 9 = Inr opt \<and>
         (\<forall>g. writerPool (opt g) = newWriterPool 9 \<and> h (opt g) = h g)"
    using WithLevel_setup_fault [of 9] by simp
  have g2: "\<exists>opt. WithLevel (- 2) = Inr opt \<and>
         (\<forall>g. writerPool (opt g) = newWriterPool (- 2) \<and> h (opt g) = h g)"
    using WithLevel_setup_fault [of "- 2"] by simp
  from b1 b2 g1 g2 lv sv show ?thesis by blast
qed

text \<open>
  C8. The classifier of supported content types is true exactly for the strings that
  start with \<open>text/\<close>, the strings that start with \<open>application/\<close> and have \<open>json\<close>,
  \<open>javascript\<close> or \<open>xml\<close> somewhere inside, and the three strings \<open>image/svg+xml\<close>,
  \<open>font/woff\<close> and \<open>font/woff2\<close> themselves. The empty string and an SVG or WOFF type
  followed by parameters are unsupported.
\<close>

theorem supportedContentType_exact:
  "(supportedContentType s \<longleftrightarrow>
      (\<exists>t. s = ''text/'' @ t) \<or>
      ((\<exists>t. s = ''application/'' @ t) \<and>
         ((\<exists>a b. s = a @ ''json'' @ b) \<or> (\<exists>a b. s = a @ ''javascript'' @ b) \<or>
          (\<exists>a b. s = a @ ''xml'' @ b))) \<or>
      s = ''image/svg+xml'' \<or> s = ''font/woff'' \<or> s = ''font/woff2'')
   \<and> \<not> supportedContentType ''''
   \<and> \<not> supportedContentType ''image/svg+xml; charset=utf-8''
   \<and> \<not> supportedContentType ''font/woff; v=1''
   \<and> \<not> supportedContentType ''font/woff2; v=1''"
proof -
  have general: "supportedContentType s \<longleftrightarrow>
      (\<exists>t. s = ''text/'' @ t) \<or>
      ((\<exists>t. s = ''application/'' @ t) \<and>
         ((\<exists>a b. s = a @ ''json'' @ b) \<or> (\<exists>a b. s = a @ ''javascript'' @ b) \<or>
          (\<exists>a b. s = a @ ''xml'' @ b))) \<or>
      s = ''image/svg+xml'' \<or> s = ''font/woff'' \<or> s = ''font/woff2''"
    unfolding supportedContentType_def HasPrefix_iff Contains_iff by auto
  have e1: "\<not> supportedContentType ''''"
    by (simp add: supportedContentType_def)
  have e2: "\<not> supportedContentType ''image/svg+xml; charset=utf-8''"
    by (simp add: supportedContentType_def HasPrefix_def)
  have e3: "\<not> supportedContentType ''font/woff; v=1''"
    by (simp add: supportedContentType_def HasPrefix_def)
  have e4: "\<not> supportedContentType ''font/woff2; v=1''"
    by (simp add: supportedContentType_def HasPrefix_def)
  from general e1 e2 e3 e4 show ?thesis by blast
qed

text \<open>
  C9. \<^verbatim>\<open>ServeHTTP\<close> returns for every request that does not accept gzip, and for every
  request when the pool's level is legal. Whenever it returns, and whatever the negotiator
  answers, the first effect on the real writer is the addition of \<open>Accept-Encoding\<close> to
  the Vary header; if the handler leaves Vary alone, the response carries the values Vary
  had before followed by \<open>Accept-Encoding\<close>. For a request that does not accept gzip the
  handler then runs on the real writer itself.
\<close>

theorem ServeHTTP_adds_Vary:
  "(\<not> acceptsGzip pf r \<or> NewWriterLevel (level (writerPool hnd)) = Inr () \<longrightarrow>
      (\<exists>res. ServeHTTP pf dct hnd rw r = Inr res))
   \<and> (ServeHTTP pf dct hnd rw r = Inr (rw', p') \<longrightarrow>
        (\<exists>es. calls rw' = calls rw @ HeaderAdd ''Vary'' ''Accept-Encoding'' # es)
       \<and> ((\<forall>x\<in>set (h hnd r). keepsVary x) \<longrightarrow>
            header rw' ''Vary'' =
              Some ((case header rw ''Vary'' of None \<Rightarrow> [] | Some vs \<Rightarrow> vs) @
                    [''Accept-Encoding'']))
       \<and> (\<not> acceptsGzip pf r \<longrightarrow>
            rw' = runRaw (rw\<lparr>header := Header_Add (header rw) ''Vary'' ''Accept-Encoding'',
                             calls := calls rw @ [HeaderAdd ''Vary'' ''Accept-Encoding'']\<rparr>)
                    (h hnd r)))"
proof -
  have "\<exists>res. ServeHTTP pf dct hnd rw r = Inr res" if "\<not> acceptsGzip pf r"
    using that by (simp add: ServeHTTP_def Let_def)
  moreover have "\<exists>res. ServeHTTP pf dct hnd rw r = Inr res"
    if "NewWriterLevel (level (writerPool hnd)) = Inr ()"
    using ServeHTTP_total [OF that, of pf dct rw r] by blast
  ultimately show ?thesis
    using ServeHTTP_Vary [of pf dct hnd rw r rw' p'] by blast
qed

text \<open>
  The theorem at a request without Accept-Encoding and at one that accepts gzip, for a
  handler that commits 200 and writes.
\<close>

theorem ServeHTTP_adds_Vary_witness:
  "(\<exists>rw' p'. ServeHTTP ParseFloat_sample DetectContentType_sample
       (New (\<lambda>r. [DoWriteHeader 200, DoWrite ''Hello'']) []) rw_sample \<lparr>reqHeader = Map.empty\<rparr> =
         Inr (rw', p')
     \<and> calls rw' =
         [HeaderAdd ''Vary'' ''Accept-Encoding'', WriteHeaderCall 200, WriteCall ''Hello'']
     \<and> header rw' ''Vary'' = Some [''Accept-Encoding''])
   \<and> (\<exists>rw' p' es. ServeHTTP ParseFloat_sample DetectContentType_sample
       (New (\<lambda>r. [DoWriteHeader 200, DoWrite ''Hello'']) []) rw_sample request_sample =
         Inr (rw', p')
     \<and> calls rw' = HeaderAdd ''Vary'' ''Accept-Encoding'' # es
     \<and> header rw' ''Vary'' = Some [''Accept-Encoding''])"
proof -
  let ?hnd = "New (\<lambda>r. [DoWriteHeader 200, DoWrite ''Hello'']) []"
  have ops: "h ?hnd r = [DoWriteHeader 200, DoWrite ''Hello'']" for r
    by (simp add: New_def)
  have kv: "\<forall>x\<in>set (h ?hnd r). keepsVary x" for r
    by (simp add: ops)
  have lv: "NewWriterLevel (level (writerPool ?hnd)) = Inr ()"
    by (simp add: New_def newWriterPool_def BestSpeed_def NewWriterLevel_iff)
  have na: "\<not> acceptsGzip ParseFloat_sample \<lparr>reqHeader = Map.empty\<rparr>"
    by (simp add: acceptsGzip_def Header_Get_def allowsGzip_def)
  have "\<exists>res. ServeHTTP ParseFloat_sample DetectContentType_sample ?hnd rw_sample
      \<lparr>reqHeader = Map.empty\<rparr> = Inr res"
    using ServeHTTP_adds_Vary [where pf = ParseFloat_sample and dct = DetectContentType_sample
      and hnd = "?hnd" and rw = rw_sample and r = "\<lparr>reqHeader = Map.empty\<rparr>"] na
    by blast
  then obtain rw1 p1 where s1: "ServeHTTP ParseFloat_sample DetectContentType_sample ?hnd
      rw_sample \<lparr>reqHeader = Map.empty\<rparr> = Inr (rw1, p1)"
    by (metis surj_pair)
  note T1 = ServeHTTP_adds_Vary [where pf = ParseFloat_sample and dct = DetectContentType_sample
      and hnd = "?hnd" and rw = rw_sample and r = "\<lparr>reqHeader = Map.empty\<rparr>"
      and rw' = rw1 and p' = p1]
  have "rw1 = runRaw (rw_sample\<lparr>header := Header_Add (header rw_sample) ''Vary'' ''Accept-Encoding'',
                             calls := calls rw_sample @ [HeaderAdd ''Vary'' ''Accept-Encoding'']\<rparr>)
                    (h ?hnd \<lparr>reqHeader = Map.empty\<rparr>)"
    using T1 s1 na by blast
  then have c1: "calls rw1 =
      [HeaderAdd ''Vary'' ''Accept-Encoding'', WriteHeaderCall 200, WriteCall ''Hello'']"
    by (simp add: ops runRaw_def rw_sample_def)
  have v1: "header rw1 ''Vary'' = Some [''Accept-Encoding'']"
    using T1 s1 kv by (simp add: rw_sample_def)
  have "\<exists>res. ServeHTTP ParseFloat_sample DetectContentType_sample ?hnd rw_sample
      request_sample = Inr res"
    using ServeHTTP_adds_Vary [where pf = ParseFloat_sample and dct = DetectContentType_sample
      and hnd = "?hnd" and rw = rw_sample and r = request_sample] lv
    by blast
  then obtain rw2 p2 where s2: "ServeHTTP ParseFloat_sample DetectContentType_sample ?hnd
      rw_sample request_sample = Inr (rw2, p2)"
    by (metis surj_pair)
  note T2 = ServeHTTP_adds_Vary [where pf = ParseFloat_sample and dct = DetectContentType_sample
      and hnd = "?hnd" and rw = rw_sample and r = request_sample and rw' = rw2 and p' = p2]
  obtain es where c2: "calls rw2 = HeaderAdd ''Vary'' ''Accept-Encoding'' # es"
    using T2 s2 by (auto simp: rw_sample_def)
  have v2: "header rw2 ''Vary'' = Some [''Accept-Encoding'']"
    using T2 s2 kv by (simp add: rw_sample_def)
  from s1 c1 v1 s2 c2 v2 show ?thesis by blast
qed

text \<open>
  C10. \<^verbatim>\<open>Close\<close> without a gzip writer changes nothing. With gzip writer \<open>s\<close> it closes
  \<open>s\<close>, flushes the real writer if that is a flusher, puts \<open>s\<close> into the pool and clears
  \<open>z\<close>. A second \<^verbatim>\<open>Close\<close> changes nothing: the pool has received \<open>s\<close> once.
  When the pool of a request has no gzip writer twice among its idle ones, all of them
  made by the pool, then after any run of a handler and \<^verbatim>\<open>Close\<close> it still has none
  twice.
\<close>

theorem Close_idempotent:
  "(z g = None \<longrightarrow> Close g = g)
   \<and> (\<forall>s. z g = Some s \<longrightarrow>
        z (Close g) = None
        \<and> calls (w (Close g)) =
            calls (w g) @ [GzClose s] @ (if flusher (w g) then [FlushCall] else [])
        \<and> idle (pool (Close g)) = s # idle (pool g)
        \<and> idle (pool (Close (Close g))) = s # idle (pool g))
   \<and> Close (Close g) = Close g
   \<and> (distinct (idle p) \<and> (\<forall>s\<in>set (idle p). s < fresh p) \<and>
      run dct (gzipWrap rw p) ops = Inr g \<longrightarrow>
        distinct (idle (pool (Close g))) \<and>
        (\<forall>s\<in>set (idle (pool (Close g))). s < fresh (pool (Close g))))"
proof -
  have local: "(z g = None \<longrightarrow> Close g = g)
   \<and> (\<forall>s. z g = Some s \<longrightarrow>
        z (Close g) = None
        \<and> calls (w (Close g)) =
            calls (w g) @ [GzClose s] @ (if flusher (w g) then [FlushCall] else [])
        \<and> idle (pool (Close g)) = s # idle (pool g)
        \<and> idle (pool (Close (Close g))) = s # idle (pool g))
   \<and> Close (Close g) = Close g"
    by (cases "z g") (simp_all add: Close_def pool_Put_def)
  have "poolOK (pool (Close g)) None"
    if "distinct (idle p)" "\<forall>s\<in>set (idle p). s < fresh p" "run dct (gzipWrap rw p) ops = Inr g"
  proof -
    have "poolOK (pool (gzipWrap rw p)) (z (gzipWrap rw p))"
      using that(1,2) by (simp add: poolOK_def gzipWrap_def)
    then have "poolOK (pool g) (z g)" using that(3) by (rule run_poolOK [rotated])
    then show ?thesis by (rule Close_poolOK)
  qed
  then have "distinct (idle p) \<and> (\<forall>s\<in>set (idle p). s < fresh p) \<and>
      run dct (gzipWrap rw p) ops = Inr g \<longrightarrow>
        distinct (idle (pool (Close g))) \<and>
        (\<forall>s\<in>set (idle (pool (Close g))). s < fresh (pool (Close g)))"
    by (simp add: poolOK_def)
  with local show ?thesis by blast
qed

text \<open>
  The theorem at a writer that holds gzip writer 0, at one that holds none, and at the
  run of a handler that writes once.
\<close>

theorem Close_idempotent_witness:
  "z (Close ((gzipWrap rw_sample (newWriterPool 1))\<lparr>z := Some 0\<rparr>)) = None
   \<and> calls (w (Close ((gzipWrap rw_sample (newWriterPool 1))\<lparr>z := Some 0\<rparr>))) =
       [GzClose 0, FlushCall]
   \<and> idle (pool (Close ((gzipWrap rw_sample (newWriterPool 1))\<lparr>z := Some 0\<rparr>))) = [0]
   \<and> idle (pool (Close (Close ((gzipWrap rw_sample (newWriterPool 1))\<lparr>z := Some 0\<rparr>)))) = [0]
   \<and> Close (gzipWrap rw_sample (newWriterPool 1)) = gzipWrap rw_sample (newWriterPool 1)
   \<and> (\<exists>g. run DetectContentType_sample (gzipWrap rw_sample (newWriterPool 1))
          [DoWrite ''Hello, world!''] = Inr g \<and>
        z g = Some 0 \<and> idle (pool (Close g)) = [0] \<and> distinct (idle (pool (Close g))))"
proof -
  let ?g = "(gzipWrap rw_sample (newWriterPool 1))\<lparr>z := Some 0\<rparr>"
  have "z ?g = Some 0" by simp
  then have "z (Close ?g) = None
        \<and> calls (w (Close ?g)) =
            calls (w ?g) @ [GzClose 0] @ (if flusher (w ?g) then [FlushCall] else [])
        \<and> idle (pool (Close ?g)) = 0 # idle (pool ?g)
        \<and> idle (pool (Close (Close ?g))) = 0 # idle (pool ?g)"
    using Close_idempotent [of ?g] by blast
  then have first: "z (Close ?g) = None \<and> calls (w (Close ?g)) = [GzClose 0, FlushCall]
        \<and> idle (pool (Close ?g)) = [0] \<and> idle (pool (Close (Close ?g))) = [0]"
    by (simp add: gzipWrap_def rw_sample_def newWriterPool_def)
  have second: "Close (gzipWrap rw_sample (newWriterPool 1)) = gzipWrap rw_sample (newWriterPool 1)"
    using Close_idempotent [of "gzipWrap rw_sample (newWriterPool 1)"]
    by (simp add: gzipWrap_def)
  obtain g where g: "run DetectContentType_sample (gzipWrap rw_sample (newWriterPool 1))
          [DoWrite ''Hello, world!''] = Inr g" "z g = Some 0" "idle (pool g) = []"
    by (simp add: writer_eval header_eval)
  have p: "distinct (idle (newWriterPool 1))" "\<forall>s\<in>set (idle (newWriterPool 1)). s < fresh (newWriterPool 1)"
    by (simp_all add: newWriterPool_def)
  have "distinct (idle (pool (Close g)))"
    using Close_idempotent [of g "newWriterPool 1" DetectContentType_sample rw_sample
        "[DoWrite ''Hello, world!'']"] p g(1) by blast
  moreover have "idle (pool (Close g)) = [0]"
    using Close_idempotent [of g] g(2,3) by simp
  ultimately have third: "\<exists>g. run DetectContentType_sample (gzipWrap rw_sample (newWriterPool 1))
          [DoWrite ''Hello, world!''] = Inr g \<and>
        z g = Some 0 \<and> idle (pool (Close g)) = [0] \<and> distinct (idle (pool (Close g)))"
    using g by blast
  from first second third show ?thesis by blast
qed

end
